theory Spec2Isabelle
  imports Main
begin

section \<open>Filename templates of image sweeps (sweep_filenames.py)\<close>

text \<open>
  The module is Python 2 code (a \<^verbatim>\<open>global\<close> statement follows the assignments it names);
  its strings are byte strings, modelled as \<^typ>\<open>string\<close>, and its integers are unbounded,
  modelled as \<^typ>\<open>int\<close> and \<^typ>\<open>nat\<close>.
\<close>

subsection \<open>The regular expressions\<close>

text \<open>
  The three patterns are built from three kinds of items only: the group \<^verbatim>\<open>([0-9]+)\<close>, the
  group \<^verbatim>\<open>(.*)\<close> and an escaped or plain literal character. \<^verbatim>\<open>re.match\<close> anchors the pattern
  at the start of the subject and not at its end. Both groups are greedy: the engine first takes
  the longest run it can and gives characters back one at a time while the rest of the pattern
  fails. The dot does not match a newline.
\<close>

datatype item = Digits | AnyStar | Lit char

definition is_digit :: "char \<Rightarrow> bool" where
  "is_digit c = (c \<in> set ''0123456789'')"

definition newline :: char where
  "newline = CHR 0x0A"

definition not_newline :: "char \<Rightarrow> bool" where
  "not_newline c = (c \<noteq> newline)"

text \<open>The first candidate of a list, tried in order, for which \<open>f\<close> succeeds.\<close>

fun first_some :: "('a \<Rightarrow> 'b option) \<Rightarrow> 'a list \<Rightarrow> 'b option" where
  "first_some f [] = None"
| "first_some f (k # ks) = (case f k of Some r \<Rightarrow> Some r | None \<Rightarrow> first_some f ks)"

text \<open>
  \<open>greedy lo hi\<close> lists the lengths a greedy group may take, longest first, from \<open>hi\<close> down
  to \<open>lo\<close>.
\<close>

definition greedy :: "nat \<Rightarrow> nat \<Rightarrow> nat list" where
  "greedy lo hi = rev [lo..<Suc hi]"

text \<open>
  \<open>re_match p s\<close> is \<^verbatim>\<open>cp.match(s)\<close>: \<open>None\<close> when there is no match, otherwise the texts
  of the groups in order (\<^verbatim>\<open>match.groups()\<close>).
\<close>

primrec re_match :: "item list \<Rightarrow> string \<Rightarrow> string list option" where
  "re_match [] = (\<lambda>s. Some [])"
| "re_match (it # p) = (\<lambda>s.
     case it of
       Lit c \<Rightarrow> (case s of [] \<Rightarrow> None | x # xs \<Rightarrow> if x = c then re_match p xs else None)
     | Digits \<Rightarrow>
         first_some (\<lambda>k. map_option (\<lambda>gs. take k s # gs) (re_match p (drop k s)))
           (greedy 1 (length (takeWhile is_digit s)))
     | AnyStar \<Rightarrow>
         first_some (\<lambda>k. map_option (\<lambda>gs. take k s # gs) (re_match p (drop k s)))
           (greedy 0 (length (takeWhile not_newline s))))"

subsection \<open>template_regex\<close>

definition patterns :: "item list list" where
  "patterns =
    [[Digits, Lit CHR ''.'', AnyStar],
     [AnyStar, Lit CHR ''.'', Digits, Lit CHR ''_'', AnyStar],
     [AnyStar, Lit CHR ''.'', Digits, AnyStar]]"

definition joiners :: "string list" where
  "joiners = [''.'', ''_'', '''']"

datatype error = ValueError | TypeError | OSError | Unmodelled

text \<open>
  \<^verbatim>\<open>int(digits)\<close>. The variable holds the integer 0 until a pattern matches and a string
  afterwards. On a string the model covers the non-empty runs of ASCII digits (the only strings
  group \<^verbatim>\<open>([0-9]+)\<close> can hold); Python raises ValueError on an empty string and on a string
  with any other character apart from a sign and surrounding blanks, which the model leaves out.
\<close>

datatype pyval = PInt int | PStr string

definition digit_val :: "char \<Rightarrow> nat" where
  "digit_val c = of_char c - 48"

definition dec :: "string \<Rightarrow> nat" where
  "dec s = foldl (\<lambda>a c. 10 * a + digit_val c) 0 s"

fun py_int :: "pyval \<Rightarrow> error + int" where
  "py_int (PInt i) = Inr i"
| "py_int (PStr s) = (if s \<noteq> [] \<and> list_all is_digit s then Inr (int (dec s)) else Inl ValueError)"

text \<open>
  The body of the loop after a successful match: the locals \<open>prefix\<close>, \<open>digits\<close> and
  \<open>exten\<close>, from the groups and the joiner of pattern \<open>j\<close>.
\<close>

definition parts_of :: "nat \<Rightarrow> string list \<Rightarrow> string \<times> string \<times> string" where
  "parts_of j groups =
    (if length groups = 3
     then (rev (groups ! 2) @ joiners ! j, rev (groups ! 1), ''.'' @ rev (groups ! 0))
     else (rev (groups ! 1) @ joiners ! j, rev (groups ! 0), ''''))"

text \<open>
  The loop over \<^verbatim>\<open>enumerate(compiled_patterns)\<close>: \<^verbatim>\<open>continue\<close> on a failed match,
  \<^verbatim>\<open>break\<close> after the first successful one. The result is \<open>None\<close> when the loop runs to its
  end.
\<close>

fun try_patterns :: "nat \<Rightarrow> item list list \<Rightarrow> string \<Rightarrow> (string \<times> string \<times> string) option" where
  "try_patterns j [] rfilename = None"
| "try_patterns j (cp # cps) rfilename =
    (case re_match cp rfilename of
       None \<Rightarrow> try_patterns (Suc j) cps rfilename
     | Some groups \<Rightarrow> Some (parts_of j groups))"

definition infer_parts :: "string \<Rightarrow> (string \<times> string \<times> string) option" where
  "infer_parts filename = try_patterns 0 patterns (rev filename)"

definition canonical :: "string \<times> string \<times> string \<Rightarrow> string" where
  "canonical p = (case p of (prefix, digits, exten) \<Rightarrow> prefix @ map (\<lambda>d. CHR ''#'') digits @ exten)"

definition template_regex :: "string \<Rightarrow> error + (string option \<times> int)" where
  "template_regex filename =
    (case infer_parts filename of
       None \<Rightarrow> (case py_int (PInt 0) of Inl e \<Rightarrow> Inl e | Inr i \<Rightarrow> Inr (None, i))
     | Some p \<Rightarrow>
         (case py_int (PStr (fst (snd p))) of Inl e \<Rightarrow> Inl e | Inr i \<Rightarrow> Inr (Some (canonical p), i)))"

subsection \<open>group_files_by_imageset\<close>

text \<open>
  The first loop appends one pair per filename to the list \<open>template\<close>: the pair
  \<^verbatim>\<open>(f, None)\<close> when no template was found and the result of \<open>template_regex\<close> otherwise.
\<close>

definition entry_of :: "string \<Rightarrow> string option \<times> int \<Rightarrow> string \<times> int option" where
  "entry_of f t = (if fst t = None then (f, None) else (the (fst t), Some (snd t)))"

fun collect_templates ::
  "(string \<times> int option) list \<Rightarrow> string list \<Rightarrow> error + (string \<times> int option) list" where
  "collect_templates template [] = Inr template"
| "collect_templates template (f # filenames) =
    (case template_regex f of
       Inl e \<Rightarrow> Inl e
     | Inr t \<Rightarrow> collect_templates (template @ [entry_of f t]) filenames)"

text \<open>
  \<^verbatim>\<open>matched = defaultdict(list)\<close> is an association list with one pair per key, in the
  order the keys were first seen; \<^verbatim>\<open>matched[k].append(v)\<close> creates the empty list for a
  missing key before it appends.
\<close>

type_synonym matched = "(string \<times> int option list) list"

fun dict_append :: "string \<Rightarrow> int option \<Rightarrow> matched \<Rightarrow> matched" where
  "dict_append k v [] = [(k, [v])]"
| "dict_append k v ((k', vs) # d) =
    (if k = k' then (k', vs @ [v]) # d else (k', vs) # dict_append k v d)"

fun fill_matched :: "matched \<Rightarrow> (string \<times> int option) list \<Rightarrow> matched" where
  "fill_matched matched [] = matched"
| "fill_matched matched (t # template) = fill_matched (dict_append (fst t) (snd t) matched) template"

definition group_files_by_imageset :: "string list \<Rightarrow> error + matched" where
  "group_files_by_imageset filenames =
    (case collect_templates [] filenames of
       Inl e \<Rightarrow> Inl e
     | Inr template \<Rightarrow> Inr (fill_matched [] template))"

subsection \<open>find_matching_images\<close>

text \<open>
  \<^verbatim>\<open>os.path.split\<close> and \<^verbatim>\<open>os.path.join\<close> of the standard library, as \<^verbatim>\<open>posixpath\<close>
  defines them: the tail is what follows the last slash, and the head loses its trailing
  slashes unless it consists of slashes only.
\<close>

definition is_slash :: "char \<Rightarrow> bool" where
  "is_slash c = (c = CHR ''/'')"

definition not_slash :: "char \<Rightarrow> bool" where
  "not_slash c = (c \<noteq> CHR ''/'')"

definition os_path_split :: "string \<Rightarrow> string \<times> string" where
  "os_path_split p =
    (let head = rev (dropWhile not_slash (rev p));
         tail = rev (takeWhile not_slash (rev p))
     in (if head \<noteq> [] \<and> \<not> list_all is_slash head
         then rev (dropWhile is_slash (rev head)) else head, tail))"

definition os_path_join :: "string \<Rightarrow> string \<Rightarrow> string" where
  "os_path_join a b =
    (if b \<noteq> [] \<and> hd b = CHR ''/'' then b
     else if a = [] \<or> last a = CHR ''/'' then a @ b
     else a @ ''/'' @ b)"

text \<open>\<^verbatim>\<open>str\<close> of a non-negative integer: its decimal digits without leading zeros.\<close>

definition digit_char :: "nat \<Rightarrow> char" where
  "digit_char n = ''0123456789'' ! n"

function str_nat :: "nat \<Rightarrow> string" where
  "str_nat n = (if n < 10 then [digit_char n] else str_nat (n div 10) @ [digit_char (n mod 10)])"
  by pat_completeness auto
termination
  by (relation "measure id") auto

declare str_nat.simps [simp del]

text \<open>The conversion \<^verbatim>\<open>%0wd\<close> of a non-negative integer: zeros on the left up to width \<open>w\<close>.\<close>

definition zfill :: "nat \<Rightarrow> string \<Rightarrow> string" where
  "zfill w s = replicate (w - length s) CHR ''0'' @ s"

text \<open>
  \<^verbatim>\<open>fmt % j\<close> for one non-negative integer \<open>j\<close>. The format is scanned from the left;
  the flag tracks whether \<open>j\<close> has been consumed. The model knows \<^verbatim>\<open>%%\<close> and the
  zero-flagged decimal conversion \<^verbatim>\<open>%0wd\<close> that \<open>find_matching_images\<close> writes. Any other
  conversion specification is outside the model and yields \<open>Unmodelled\<close> (Python raises on
  most of them and renders a few). A second conversion with no argument left is Python's
  "not enough arguments", an unconsumed argument at the end "not all arguments converted"
  (both TypeError), and a format that ends inside a specification "incomplete format"
  (ValueError).
\<close>

datatype fstate = Text | Percent | Width nat

definition emit :: "string \<Rightarrow> error + string \<Rightarrow> error + string" where
  "emit s r = (case r of Inl e \<Rightarrow> Inl e | Inr t \<Rightarrow> Inr (s @ t))"

fun py_format_from :: "fstate \<Rightarrow> bool \<Rightarrow> nat \<Rightarrow> string \<Rightarrow> error + string" where
  "py_format_from Text used j [] = (if used then Inr [] else Inl TypeError)"
| "py_format_from Text used j (c # r) =
    (if c = CHR ''%'' then py_format_from Percent used j r
     else emit [c] (py_format_from Text used j r))"
| "py_format_from Percent used j [] = Inl ValueError"
| "py_format_from Percent used j (c # r) =
    (if c = CHR ''%'' then emit ''%'' (py_format_from Text used j r)
     else if c = CHR ''0'' then py_format_from (Width 0) used j r
     else Inl Unmodelled)"
| "py_format_from (Width w) used j [] = Inl ValueError"
| "py_format_from (Width w) used j (c # r) =
    (if is_digit c then py_format_from (Width (10 * w + digit_val c)) used j r
     else if c = CHR ''d'' then
       (if used then Inl TypeError
        else emit (zfill w (str_nat j)) (py_format_from Text True j r))
     else Inl Unmodelled)"

definition py_format :: "string \<Rightarrow> nat \<Rightarrow> error + string" where
  "py_format fmt j = py_format_from Text False j fmt"

text \<open>
  The loop \<^verbatim>\<open>for j in range(0, 10 ** len_digits)\<close>, over the list of its indices; an
  exception of the formatting ends it.
\<close>

fun scan_indices ::
  "string \<Rightarrow> string \<Rightarrow> string list \<Rightarrow> string list \<Rightarrow> nat list \<Rightarrow> error + string list" where
  "scan_indices directory template_str files_in_directory matching_images [] = Inr matching_images"
| "scan_indices directory template_str files_in_directory matching_images (j # js) =
    (case py_format template_str j of
       Inl e \<Rightarrow> Inl e
     | Inr name \<Rightarrow>
         scan_indices directory template_str files_in_directory
           (if name \<in> set files_in_directory
            then matching_images @ [os_path_join directory name] else matching_images) js)"

definition hash_char :: "char \<Rightarrow> bool" where
  "hash_char c = (c = CHR ''#'')"

definition not_hash :: "char \<Rightarrow> bool" where
  "not_hash c = (c \<noteq> CHR ''#'')"

text \<open>
  \<open>listdir\<close> stands for \<^verbatim>\<open>os.listdir\<close>: the names in a directory, or the error it
  raises. A template that is \<open>None\<close> or the empty string is false in the test
  \<^verbatim>\<open>if template\<close>.
\<close>

definition find_matching_images ::
  "(string \<Rightarrow> error + string list) \<Rightarrow> string \<Rightarrow> error + string list" where
  "find_matching_images listdir image_name =
    (let directory = (if fst (os_path_split image_name) = [] then ''.''
                      else fst (os_path_split image_name));
         filename = snd (os_path_split image_name)
     in case template_regex filename of
          Inl e \<Rightarrow> Inl e
        | Inr (template, digits) \<Rightarrow>
            if template \<noteq> None \<and> template \<noteq> Some []
            then
              (let len_digits = length (filter hash_char (the template));
                   pfx = takeWhile not_hash (the template);
                   sfx = rev (takeWhile not_hash (rev (the template)));
                   template_str = pfx @ (''%0'' @ str_nat len_digits @ ''d'') @ sfx
               in case listdir directory of
                    Inl e \<Rightarrow> Inl e
                  | Inr files_in_directory \<Rightarrow>
                      scan_indices directory template_str files_in_directory []
                        [0..<10 ^ len_digits])
            else Inr [image_name])"

subsection \<open>Names for the parts of the patterns\<close>

abbreviation pat1 :: "item list" where
  "pat1 \<equiv> [Digits, Lit CHR ''.'', AnyStar]"

abbreviation tail2 :: "item list" where
  "tail2 \<equiv> [Lit CHR ''.'', Digits, Lit CHR ''_'', AnyStar]"

abbreviation tail3 :: "item list" where
  "tail3 \<equiv> [Lit CHR ''.'', Digits, AnyStar]"

subsection \<open>Notions used to state the properties\<close>

text \<open>
  \<open>digit_next_to_dot s\<close>: somewhere in \<open>s\<close> a dot and an ASCII digit are neighbours, in
  either order.
\<close>

fun digit_next_to_dot :: "string \<Rightarrow> bool" where
  "digit_next_to_dot (x # y # r) =
     ((x = CHR ''.'' \<and> is_digit y) \<or> (is_digit x \<and> y = CHR ''.'') \<or> digit_next_to_dot (y # r))"
| "digit_next_to_dot r = False"

text \<open>
  \<open>key_value f\<close>: the pair the first loop of \<open>group_files_by_imageset\<close> appends for the
  filename \<open>f\<close>, its group key and the value appended to that group.
\<close>

definition key_value :: "string \<Rightarrow> string \<times> int option" where
  "key_value f = (case template_regex f of Inl e \<Rightarrow> (f, None) | Inr t \<Rightarrow> entry_of f t)"

text \<open>\<open>values_of matched k\<close> is \<^verbatim>\<open>matched[k]\<close> of the defaultdict: empty for a missing key.\<close>

definition values_of :: "matched \<Rightarrow> string \<Rightarrow> int option list" where
  "values_of matched k = (case map_of matched k of None \<Rightarrow> [] | Some vs \<Rightarrow> vs)"

definition total_values :: "matched \<Rightarrow> nat" where
  "total_values matched = sum_list (map (\<lambda>kv. length (snd kv)) matched)"

text \<open>Directory contents used in the examples.\<close>

definition no_directory :: "string \<Rightarrow> error + string list" where
  "no_directory d = Inl OSError"

definition gap_directory :: "string \<Rightarrow> error + string list" where
  "gap_directory d =
     (if d = ''.'' then Inr [''a_004.img'', ''a_001.img'', ''a_002.img''] else Inl OSError)"

definition hash_directory :: "string \<Rightarrow> error + string list" where
  "hash_directory d = (if d = ''.'' then Inr [''a#_01.cbf''] else Inl OSError)"

section \<open>Properties\<close>

subsection \<open>Greedy search\<close>

lemma greedy_Suc: "greedy lo (Suc hi) = (if lo \<le> Suc hi then Suc hi # greedy lo hi else [])"
  by (simp add: greedy_def)

lemma greedy_0: "greedy lo 0 = (if lo = 0 then [0] else [])"
  by (simp add: greedy_def)

lemma first_some_greedy_None:
  "first_some f (greedy lo hi) = None \<longleftrightarrow> (\<forall>k. lo \<le> k \<and> k \<le> hi \<longrightarrow> f k = None)"
proof (induction hi)
  case 0
  show ?case by (auto simp: greedy_0 split: option.splits)
next
  case (Suc hi)
  show ?case
  proof (cases "lo \<le> Suc hi")
    case False
    then show ?thesis by (auto simp add: greedy_Suc)
  next
    case True
    show ?thesis
    proof (cases "f (Suc hi)")
      case None
      have "(\<forall>k. lo \<le> k \<and> k \<le> Suc hi \<longrightarrow> f k = None) \<longleftrightarrow> (\<forall>k. lo \<le> k \<and> k \<le> hi \<longrightarrow> f k = None)"
        using None by (auto simp: le_Suc_eq)
      then show ?thesis using True None Suc by (simp add: greedy_Suc)
    next
      case (Some r)
      then show ?thesis using True by (auto simp: greedy_Suc)
    qed
  qed
qed

lemma first_some_greedy_Some:
  "first_some f (greedy lo hi) = Some r \<longleftrightarrow>
     (\<exists>k. lo \<le> k \<and> k \<le> hi \<and> f k = Some r \<and> (\<forall>k'. k < k' \<and> k' \<le> hi \<longrightarrow> f k' = None))"
proof (induction hi)
  case 0
  show ?case by (auto simp: greedy_0 split: option.splits)
next
  case (Suc hi)
  show ?case
  proof (cases "lo \<le> Suc hi")
    case False
    then show ?thesis by (auto simp add: greedy_Suc)
  next
    case True
    show ?thesis
    proof (cases "f (Suc hi)")
      case None
      have "(\<exists>k. lo \<le> k \<and> k \<le> Suc hi \<and> f k = Some r \<and> (\<forall>k'. k < k' \<and> k' \<le> Suc hi \<longrightarrow> f k' = None))
        \<longleftrightarrow> (\<exists>k. lo \<le> k \<and> k \<le> hi \<and> f k = Some r \<and> (\<forall>k'. k < k' \<and> k' \<le> hi \<longrightarrow> f k' = None))"
        (is "?L \<longleftrightarrow> ?R")
      proof
        assume ?L
        then obtain k where k: "lo \<le> k" "k \<le> Suc hi" "f k = Some r"
          "\<forall>k'. k < k' \<and> k' \<le> Suc hi \<longrightarrow> f k' = None" by blast
        from k None have "k \<noteq> Suc hi" by auto
        with k have "k \<le> hi" by simp
        with k show ?R by (intro exI[of _ k]) auto
      next
        assume ?R
        then obtain k where k: "lo \<le> k" "k \<le> hi" "f k = Some r"
          "\<forall>k'. k < k' \<and> k' \<le> hi \<longrightarrow> f k' = None" by blast
        have "\<forall>k'. k < k' \<and> k' \<le> Suc hi \<longrightarrow> f k' = None"
          using k(4) None by (auto simp: le_Suc_eq)
        with k show ?L by (intro exI[of _ k]) auto
      qed
      then show ?thesis using True None Suc by (simp add: greedy_Suc)
    next
      case (Some r')
      have "(\<exists>k. lo \<le> k \<and> k \<le> Suc hi \<and> f k = Some r \<and> (\<forall>k'. k < k' \<and> k' \<le> Suc hi \<longrightarrow> f k' = None))
        \<longleftrightarrow> r' = r" (is "?L \<longleftrightarrow> _")
      proof
        assume ?L
        then obtain k where k: "lo \<le> k" "k \<le> Suc hi" "f k = Some r"
          "\<forall>k'. k < k' \<and> k' \<le> Suc hi \<longrightarrow> f k' = None" by blast
        have "k = Suc hi"
        proof (rule ccontr)
          assume "k \<noteq> Suc hi"
          with k have "k < Suc hi" by simp
          with k(4) have "f (Suc hi) = None" by simp
          with Some show False by simp
        qed
        with k Some show "r' = r" by simp
      next
        assume "r' = r"
        with Some True show ?L by (intro exI[of _ "Suc hi"]) auto
      qed
      then show ?thesis using True Some by (simp add: greedy_Suc)
    qed
  qed
qed

lemma first_some_greedy_top:
  assumes "\<forall>k. lo \<le> k \<and> k < hi \<longrightarrow> f k = None"
  shows "first_some f (greedy lo hi) = (if lo \<le> hi then f hi else None)"
proof (cases "lo \<le> hi")
  case False
  then have "first_some f (greedy lo hi) = None"
    by (auto simp add: first_some_greedy_None)
  with False show ?thesis by simp
next
  case True
  show ?thesis
  proof (cases "f hi")
    case None
    then have "first_some f (greedy lo hi) = None"
      using assms by (auto simp: first_some_greedy_None le_less)
    with None True show ?thesis by simp
  next
    case (Some r)
    then have "first_some f (greedy lo hi) = Some r"
      using True by (auto simp: first_some_greedy_Some)
    with Some True show ?thesis by simp
  qed
qed

subsection \<open>Closed forms of the three patterns\<close>

lemma not_digit_dot [simp]: "\<not> is_digit CHR ''.''" and not_digit_us [simp]: "\<not> is_digit CHR ''_''"
  by (simp_all add: is_digit_def)

lemma take_takeWhile_len: "take (length (takeWhile P s)) s = takeWhile P s"
  by (induction s) auto

lemma drop_takeWhile_len: "drop (length (takeWhile P s)) s = dropWhile P s"
  by (induction s) auto

lemma first_some_greedy_hit:
  "lo \<le> hi \<Longrightarrow> f hi = Some r \<Longrightarrow> first_some f (greedy lo hi) = Some r"
  unfolding first_some_greedy_Some by (intro exI[of _ hi]) auto

lemma re_match_star_end: "re_match [AnyStar] s = Some [takeWhile not_newline s]"
proof -
  let ?n = "length (takeWhile not_newline s)"
  let ?f = "\<lambda>k. map_option (\<lambda>gs. take k s # gs) (re_match [] (drop k s))"
  have "first_some ?f (greedy 0 ?n) = Some [take ?n s]"
    by (rule first_some_greedy_hit) simp_all
  then show ?thesis by (simp add: take_takeWhile_len)
qed

lemma re_match_digits_end:
  "re_match (Digits # p) s =
     first_some (\<lambda>k. map_option (\<lambda>gs. take k s # gs) (re_match p (drop k s)))
       (greedy 1 (length (takeWhile is_digit s)))"
  by simp

lemma nth_takeWhile_digit:
  "k < length (takeWhile P s) \<Longrightarrow> \<exists>x xs. drop k s = x # xs \<and> P x"
proof (induction s arbitrary: k)
  case Nil
  then show ?case by simp
next
  case (Cons a s)
  then show ?case by (cases k) (auto split: if_splits)
qed

lemma map_option_case_list:
  "map_option f (case l of [] \<Rightarrow> None | x # xs \<Rightarrow> if x = c then g xs else None) =
     (case l of [] \<Rightarrow> None | x # xs \<Rightarrow> if x = c then map_option f (g xs) else None)"
  by (cases l) simp_all

lemma re_match_lit:
  "re_match (Lit c # p) s = (case s of [] \<Rightarrow> None | x # xs \<Rightarrow> if x = c then re_match p xs else None)"
  by simp

lemma re_match_digits_lit:
  assumes "\<not> is_digit c"
  shows "re_match (Digits # Lit c # p) s =
     (if takeWhile is_digit s = [] then None
      else case dropWhile is_digit s of
             [] \<Rightarrow> None
           | x # xs \<Rightarrow> if x = c then map_option (\<lambda>gs. takeWhile is_digit s # gs) (re_match p xs)
                       else None)"
proof -
  let ?n = "length (takeWhile is_digit s)"
  let ?f = "\<lambda>k. map_option (\<lambda>gs. take k s # gs) (re_match (Lit c # p) (drop k s))"
  have none: "\<forall>k. 1 \<le> k \<and> k < ?n \<longrightarrow> ?f k = None"
  proof (intro allI impI)
    fix k assume "1 \<le> k \<and> k < ?n"
    then obtain x xs where "drop k s = x # xs" "is_digit x"
      using nth_takeWhile_digit[of k is_digit s] by blast
    with assms show "?f k = None" by auto
  qed
  have "re_match (Digits # Lit c # p) s = first_some ?f (greedy 1 ?n)"
    by (rule re_match_digits_end)
  also have "\<dots> = (if 1 \<le> ?n then ?f ?n else None)"
    by (rule first_some_greedy_top[OF none])
  finally have eq: "re_match (Digits # Lit c # p) s = (if 1 \<le> ?n then ?f ?n else None)" .
  have fn: "?f ?n = (case dropWhile is_digit s of
             [] \<Rightarrow> None
           | x # xs \<Rightarrow> if x = c then map_option (\<lambda>gs. takeWhile is_digit s # gs) (re_match p xs)
                       else None)"
    by (simp only: take_takeWhile_len drop_takeWhile_len re_match_lit map_option_case_list)
  have n: "(1 \<le> ?n) = (takeWhile is_digit s \<noteq> [])"
    by (simp add: Suc_le_eq)
  show ?thesis
  proof (cases "takeWhile is_digit s = []")
    case True
    then show ?thesis unfolding eq n by (simp only: if_False if_True not_True_eq_False simp_thms)
  next
    case False
    then show ?thesis unfolding eq n fn by (simp only: if_False if_True not_False_eq_True simp_thms)
  qed
qed

lemma re_match_digits_star:
  "re_match [Digits, AnyStar] s =
     (if takeWhile is_digit s = [] then None
      else Some [takeWhile is_digit s, takeWhile not_newline (dropWhile is_digit s)])"
proof -
  let ?n = "length (takeWhile is_digit s)"
  let ?f = "\<lambda>k. map_option (\<lambda>gs. take k s # gs) (re_match [AnyStar] (drop k s))"
  have eq: "re_match [Digits, AnyStar] s = first_some ?f (greedy 1 ?n)"
    by (rule re_match_digits_end)
  show ?thesis
  proof (cases "takeWhile is_digit s = []")
    case True
    then have "first_some ?f (greedy 1 ?n) = None"
      by (simp add: greedy_0)
    with True eq show ?thesis by simp
  next
    case False
    then have "1 \<le> ?n" by (simp add: Suc_le_eq)
    moreover have "?f ?n = Some [takeWhile is_digit s, takeWhile not_newline (dropWhile is_digit s)]"
      by (simp only: re_match_star_end take_takeWhile_len drop_takeWhile_len option.map)
    ultimately have "first_some ?f (greedy 1 ?n) =
        Some [takeWhile is_digit s, takeWhile not_newline (dropWhile is_digit s)]"
      by (rule first_some_greedy_hit)
    with False eq show ?thesis by simp
  qed
qed

lemma re_match_first:
  "re_match [Digits, Lit CHR ''.'', AnyStar] s =
     (if takeWhile is_digit s = [] then None
      else case dropWhile is_digit s of
             [] \<Rightarrow> None
           | x # xs \<Rightarrow> if x = CHR ''.'' then Some [takeWhile is_digit s, takeWhile not_newline xs]
                       else None)"
  by (simp only: re_match_digits_lit[OF not_digit_dot] re_match_star_end option.map)

lemma tail_us:
  "re_match [Lit CHR ''.'', Digits, Lit CHR ''_'', AnyStar] s =
     (case s of [] \<Rightarrow> None
      | y # t \<Rightarrow>
        if y = CHR ''.'' then
          (if takeWhile is_digit t = [] then None
           else case dropWhile is_digit t of
             [] \<Rightarrow> None
           | x # xs \<Rightarrow> if x = CHR ''_'' then Some [takeWhile is_digit t, takeWhile not_newline xs]
                       else None)
        else None)"
proof -
  have "re_match [Lit CHR ''.'', Digits, Lit CHR ''_'', AnyStar] s =
     (case s of [] \<Rightarrow> None
      | y # t \<Rightarrow> if y = CHR ''.'' then re_match [Digits, Lit CHR ''_'', AnyStar] t else None)"
    by simp
  then show ?thesis
    by (simp only: re_match_digits_lit[OF not_digit_us] re_match_star_end option.map)
qed

lemma tail_gen:
  "re_match [Lit CHR ''.'', Digits, AnyStar] s =
     (case s of [] \<Rightarrow> None
      | y # t \<Rightarrow>
        if y = CHR ''.'' then
          (if takeWhile is_digit t = [] then None
           else Some [takeWhile is_digit t, takeWhile not_newline (dropWhile is_digit t)])
        else None)"
proof -
  have "re_match [Lit CHR ''.'', Digits, AnyStar] s =
     (case s of [] \<Rightarrow> None
      | y # t \<Rightarrow> if y = CHR ''.'' then re_match [Digits, AnyStar] t else None)"
    by simp
  then show ?thesis
    by (simp only: re_match_digits_star)
qed

subsection \<open>The worked examples\<close>

text \<open>
  C2. The two worked examples: \<^verbatim>\<open>foo_0001.cbf\<close> has prefix \<^verbatim>\<open>foo_\<close>, four digits, suffix
  \<^verbatim>\<open>.cbf\<close>, canonical string \<^verbatim>\<open>foo_####.cbf\<close> and index 1; \<^verbatim>\<open>image.0001\<close> has prefix
  \<^verbatim>\<open>image.\<close>, four digits, an empty suffix, canonical string \<^verbatim>\<open>image.####\<close> and index 1.
\<close>

theorem C2_worked_examples:
  "infer_parts ''foo_0001.cbf'' = Some (''foo_'', ''0001'', ''.cbf'') \<and>
   length ''0001'' = 4 \<and>
   template_regex ''foo_0001.cbf'' = Inr (Some ''foo_####.cbf'', 1) \<and>
   infer_parts ''image.0001'' = Some (''image.'', ''0001'', '''') \<and>
   template_regex ''image.0001'' = Inr (Some ''image.####'', 1)"
  by code_simp

subsection \<open>The greedy star as a choice of split\<close>

lemma le_length_takeWhile:
  "k \<le> length (takeWhile P s) \<longleftrightarrow> k \<le> length s \<and> list_all P (take k s)"
proof (induction s arbitrary: k)
  case Nil
  then show ?case by simp
next
  case (Cons a s)
  then show ?case by (cases k) auto
qed

lemma re_match_star:
  "re_match (AnyStar # p) s =
     first_some (\<lambda>k. map_option (\<lambda>gs. take k s # gs) (re_match p (drop k s)))
       (greedy 0 (length (takeWhile not_newline s)))"
  by simp

lemma star_None:
  "re_match (AnyStar # p) s = None \<longleftrightarrow>
     (\<forall>g r. s = g @ r \<and> list_all not_newline g \<longrightarrow> re_match p r = None)"
proof
  assume none: "re_match (AnyStar # p) s = None"
  show "\<forall>g r. s = g @ r \<and> list_all not_newline g \<longrightarrow> re_match p r = None"
  proof (intro allI impI)
    fix g r assume gr: "s = g @ r \<and> list_all not_newline g"
    then have "length g \<le> length (takeWhile not_newline s)"
      by (simp add: le_length_takeWhile)
    with none have "map_option (\<lambda>gs. take (length g) s # gs) (re_match p (drop (length g) s)) = None"
      unfolding re_match_star first_some_greedy_None by blast
    with gr show "re_match p r = None" by simp
  qed
next
  assume all: "\<forall>g r. s = g @ r \<and> list_all not_newline g \<longrightarrow> re_match p r = None"
  have "\<forall>k. 0 \<le> k \<and> k \<le> length (takeWhile not_newline s) \<longrightarrow>
          map_option (\<lambda>gs. take k s # gs) (re_match p (drop k s)) = None"
  proof (intro allI impI)
    fix k assume "0 \<le> k \<and> k \<le> length (takeWhile not_newline s)"
    then have "list_all not_newline (take k s)"
      by (simp add: le_length_takeWhile)
    moreover have "s = take k s @ drop k s" by simp
    ultimately have "re_match p (drop k s) = None" using all by blast
    then show "map_option (\<lambda>gs. take k s # gs) (re_match p (drop k s)) = None" by simp
  qed
  then show "re_match (AnyStar # p) s = None"
    unfolding re_match_star first_some_greedy_None .
qed

lemma star_Some:
  "re_match (AnyStar # p) s = Some gs \<longleftrightarrow>
     (\<exists>g r gs'. s = g @ r \<and> list_all not_newline g \<and> re_match p r = Some gs' \<and> gs = g # gs' \<and>
        (\<forall>g' r'. s = g' @ r' \<and> list_all not_newline g' \<and> length g < length g'
            \<longrightarrow> re_match p r' = None))"
  (is "?L \<longleftrightarrow> ?R")
proof
  assume ?L
  then obtain k where k: "k \<le> length (takeWhile not_newline s)"
      "map_option (\<lambda>gs. take k s # gs) (re_match p (drop k s)) = Some gs"
      "\<forall>k'. k < k' \<and> k' \<le> length (takeWhile not_newline s) \<longrightarrow>
         map_option (\<lambda>gs. take k' s # gs) (re_match p (drop k' s)) = None"
    unfolding re_match_star first_some_greedy_Some by blast
  from k(2) obtain gs' where gs': "re_match p (drop k s) = Some gs'" "gs = take k s # gs'"
    by auto
  have later: "\<forall>g' r'. s = g' @ r' \<and> list_all not_newline g' \<and> length (take k s) < length g'
            \<longrightarrow> re_match p r' = None"
  proof (intro allI impI)
    fix g' r' assume a: "s = g' @ r' \<and> list_all not_newline g' \<and> length (take k s) < length g'"
    then have "length g' \<le> length (takeWhile not_newline s)"
      by (simp add: le_length_takeWhile)
    moreover have "k \<le> length s" using k(1)
      by (simp add: le_length_takeWhile)
    then have "k < length g'" using a by (auto simp add: min_def split: if_splits)
    ultimately have "map_option (\<lambda>gs. take (length g') s # gs) (re_match p (drop (length g') s)) = None"
      using k(3) by blast
    with a show "re_match p r' = None" by simp
  qed
  from k(1) have "list_all not_newline (take k s)"
    by (simp add: le_length_takeWhile)
  with gs' later show ?R
    by (intro exI[of _ "take k s"] exI[of _ "drop k s"] exI[of _ gs']) simp
next
  assume ?R
  then obtain g r gs' where R: "s = g @ r" "list_all not_newline g" "re_match p r = Some gs'"
      "gs = g # gs'"
      "\<forall>g' r'. s = g' @ r' \<and> list_all not_newline g' \<and> length g < length g'
            \<longrightarrow> re_match p r' = None"
    by blast
  let ?k = "length g"
  have 1: "?k \<le> length (takeWhile not_newline s)"
    using R(1,2) by (simp add: le_length_takeWhile)
  have 2: "map_option (\<lambda>gs. take ?k s # gs) (re_match p (drop ?k s)) = Some gs"
    using R(1,3,4) by simp
  have 3: "\<forall>k'. ?k < k' \<and> k' \<le> length (takeWhile not_newline s) \<longrightarrow>
         map_option (\<lambda>gs. take k' s # gs) (re_match p (drop k' s)) = None"
  proof (intro allI impI)
    fix k' assume a: "?k < k' \<and> k' \<le> length (takeWhile not_newline s)"
    then have "list_all not_newline (take k' s)" "k' \<le> length s"
      by (simp_all add: le_length_takeWhile)
    moreover have "s = take k' s @ drop k' s" by simp
    moreover have "length g < length (take k' s)" using a \<open>k' \<le> length s\<close> by simp
    ultimately have "re_match p (drop k' s) = None" using R(5) by blast
    then show "map_option (\<lambda>gs. take k' s # gs) (re_match p (drop k' s)) = None" by simp
  qed
  show ?L
    unfolding re_match_star first_some_greedy_Some
    using 1 2 3 by (intro exI[of _ ?k]) simp
qed

subsection \<open>What each pattern body matches\<close>

lemma run_split:
  assumes "list_all P ds" "R = [] \<or> \<not> P (hd R)"
  shows "takeWhile P (ds @ R) = ds" and "dropWhile P (ds @ R) = R"
proof -
  have R: "takeWhile P R = []" "dropWhile P R = R"
    using assms(2) by (cases R; simp)+
  show "takeWhile P (ds @ R) = ds" "dropWhile P (ds @ R) = R"
    using assms(1) R by (induction ds) simp_all
qed

lemma pat1_Some:
  "re_match pat1 s = Some gs \<longleftrightarrow>
     (\<exists>ds xs. s = ds @ CHR ''.'' # xs \<and> ds \<noteq> [] \<and> list_all is_digit ds \<and>
        gs = [ds, takeWhile not_newline xs])"
  (is "?L \<longleftrightarrow> ?R")
proof
  assume L: ?L
  let ?ds = "takeWhile is_digit s"
  from L have ne: "?ds \<noteq> []"
    unfolding re_match_first by (simp split: if_splits)
  from L ne obtain xs where xs: "dropWhile is_digit s = CHR ''.'' # xs"
      "gs = [?ds, takeWhile not_newline xs]"
    unfolding re_match_first by (auto split: if_splits list.splits)
  have "s = ?ds @ dropWhile is_digit s" by simp
  then have "s = ?ds @ CHR ''.'' # xs" using xs(1) by simp
  moreover have "list_all is_digit ?ds"
    by (auto simp: list_all_iff dest: set_takeWhileD)
  ultimately show ?R using ne xs(2) by blast
next
  assume ?R
  then obtain ds xs where R: "s = ds @ CHR ''.'' # xs" "ds \<noteq> []" "list_all is_digit ds"
      "gs = [ds, takeWhile not_newline xs]" by blast
  have "takeWhile is_digit s = ds" "dropWhile is_digit s = CHR ''.'' # xs"
    unfolding R(1) using run_split[OF R(3), of "CHR ''.'' # xs"] by simp_all
  then show ?L unfolding re_match_first using R(2,4) by simp
qed

lemma tail2_Some:
  "re_match tail2 s = Some gs \<longleftrightarrow>
     (\<exists>ds xs. s = CHR ''.'' # ds @ CHR ''_'' # xs \<and> ds \<noteq> [] \<and> list_all is_digit ds \<and>
        gs = [ds, takeWhile not_newline xs])"
  (is "?L \<longleftrightarrow> ?R")
proof
  assume L: ?L
  then obtain t where t: "s = CHR ''.'' # t"
    unfolding tail_us by (auto split: list.splits if_splits)
  let ?ds = "takeWhile is_digit t"
  from L t have ne: "?ds \<noteq> []"
    unfolding tail_us by (simp split: if_splits)
  from L t ne obtain xs where xs: "dropWhile is_digit t = CHR ''_'' # xs"
      "gs = [?ds, takeWhile not_newline xs]"
    unfolding tail_us by (auto split: if_splits list.splits)
  have "t = ?ds @ dropWhile is_digit t" by simp
  then have "s = CHR ''.'' # ?ds @ CHR ''_'' # xs" using xs(1) t by simp
  moreover have "list_all is_digit ?ds"
    by (auto simp: list_all_iff dest: set_takeWhileD)
  ultimately show ?R using ne xs(2) by blast
next
  assume ?R
  then obtain ds xs where R: "s = CHR ''.'' # ds @ CHR ''_'' # xs" "ds \<noteq> []" "list_all is_digit ds"
      "gs = [ds, takeWhile not_newline xs]" by blast
  have "takeWhile is_digit (ds @ CHR ''_'' # xs) = ds"
       "dropWhile is_digit (ds @ CHR ''_'' # xs) = CHR ''_'' # xs"
    using run_split[OF R(3), of "CHR ''_'' # xs"] by simp_all
  then show ?L unfolding tail_us R(1) using R(2,4) by simp
qed

lemma tail3_Some:
  "re_match tail3 s = Some gs \<longleftrightarrow>
     (\<exists>ds R. s = CHR ''.'' # ds @ R \<and> ds \<noteq> [] \<and> list_all is_digit ds \<and>
        (R = [] \<or> \<not> is_digit (hd R)) \<and> gs = [ds, takeWhile not_newline R])"
  (is "?L \<longleftrightarrow> ?R")
proof
  assume L: ?L
  then obtain t where t: "s = CHR ''.'' # t"
    unfolding tail_gen by (auto split: list.splits if_splits)
  let ?ds = "takeWhile is_digit t"
  let ?rest = "dropWhile is_digit t"
  from L t have ne: "?ds \<noteq> []"
    unfolding tail_gen by (simp split: if_splits)
  from L t ne have gs: "gs = [?ds, takeWhile not_newline ?rest]"
    unfolding tail_gen by (auto split: if_splits)
  have "s = CHR ''.'' # ?ds @ ?rest" using t by simp
  moreover have "list_all is_digit ?ds"
    by (auto simp: list_all_iff dest: set_takeWhileD)
  moreover have "?rest = [] \<or> \<not> is_digit (hd ?rest)"
    using hd_dropWhile[of is_digit t] by blast
  ultimately show ?R using ne gs by blast
next
  assume ?R
  then obtain ds R where R: "s = CHR ''.'' # ds @ R" "ds \<noteq> []" "list_all is_digit ds"
      "R = [] \<or> \<not> is_digit (hd R)" "gs = [ds, takeWhile not_newline R]" by blast
  have "takeWhile is_digit (ds @ R) = ds" "dropWhile is_digit (ds @ R) = R"
    using run_split[OF R(3,4)] by simp_all
  then show ?L unfolding tail_gen R(1) using R(2,5) by simp
qed

subsection \<open>The result of the loop, pattern by pattern\<close>

declare re_match.simps [simp del]

lemma patterns_nth:
  "patterns ! 0 = pat1" "patterns ! 1 = AnyStar # tail2" "patterns ! 2 = AnyStar # tail3"
  "length patterns = 3"
  by (simp_all add: patterns_def)

lemma parts_of_two: "parts_of j [g1, g2] = (rev g2 @ joiners ! j, rev g1, '''')"
  by (simp add: parts_of_def)

lemma parts_of_three:
  "parts_of j [g1, g2, g3] = (rev g3 @ joiners ! j, rev g2, ''.'' @ rev g1)"
  by (simp add: parts_of_def)

lemma joiners_nth:
  "joiners ! 0 = ''.''" "joiners ! 1 = ''_''" "joiners ! Suc 0 = ''_''" "joiners ! 2 = ''''"
  by (simp_all add: joiners_def)

lemma infer_parts_unfold:
  "infer_parts f =
    (case re_match pat1 (rev f) of
       Some gs \<Rightarrow> Some (parts_of 0 gs)
     | None \<Rightarrow>
        (case re_match (AnyStar # tail2) (rev f) of
           Some gs \<Rightarrow> Some (parts_of 1 gs)
         | None \<Rightarrow>
            (case re_match (AnyStar # tail3) (rev f) of
               Some gs \<Rightarrow> Some (parts_of 2 gs)
             | None \<Rightarrow> None)))"
  by (simp add: infer_parts_def patterns_def numeral_2_eq_2 split: option.splits)

lemma pat1_groups: "re_match pat1 s = Some gs \<Longrightarrow> \<exists>g1 g2. gs = [g1, g2]"
  unfolding pat1_Some by blast

lemma pat2_groups: "re_match (AnyStar # tail2) s = Some gs \<Longrightarrow> \<exists>g1 g2 g3. gs = [g1, g2, g3]"
  unfolding star_Some tail2_Some by blast

lemma pat3_groups: "re_match (AnyStar # tail3) s = Some gs \<Longrightarrow> \<exists>g1 g2 g3. gs = [g1, g2, g3]"
  unfolding star_Some tail3_Some by blast

lemma infer_parts_Some:
  "infer_parts f = Some (pre, ds, exten) \<longleftrightarrow>
     (\<exists>g1 g2. re_match pat1 (rev f) = Some [g1, g2] \<and>
         pre = rev g2 @ ''.'' \<and> ds = rev g1 \<and> exten = '''') \<or>
     (re_match pat1 (rev f) = None \<and>
       (\<exists>g1 g2 g3. re_match (AnyStar # tail2) (rev f) = Some [g1, g2, g3] \<and>
         pre = rev g3 @ ''_'' \<and> ds = rev g2 \<and> exten = ''.'' @ rev g1)) \<or>
     (re_match pat1 (rev f) = None \<and> re_match (AnyStar # tail2) (rev f) = None \<and>
       (\<exists>g1 g2 g3. re_match (AnyStar # tail3) (rev f) = Some [g1, g2, g3] \<and>
         pre = rev g3 \<and> ds = rev g2 \<and> exten = ''.'' @ rev g1))"
proof (cases "re_match pat1 (rev f)")
  case (Some gs)
  then obtain g1 g2 where "gs = [g1, g2]" using pat1_groups by blast
  with Some show ?thesis
    by (auto simp: infer_parts_unfold parts_of_two joiners_nth)
next
  case n1: None
  show ?thesis
  proof (cases "re_match (AnyStar # tail2) (rev f)")
    case (Some gs)
    then obtain g1 g2 g3 where "gs = [g1, g2, g3]" using pat2_groups by blast
    with Some n1 show ?thesis
      by (auto simp: infer_parts_unfold parts_of_three joiners_nth)
  next
    case n2: None
    show ?thesis
    proof (cases "re_match (AnyStar # tail3) (rev f)")
      case (Some gs)
      then obtain g1 g2 g3 where "gs = [g1, g2, g3]" using pat3_groups by blast
      with Some n1 n2 show ?thesis
        by (auto simp: infer_parts_unfold parts_of_three joiners_nth)
    next
      case None
      with n1 n2 show ?thesis by (simp add: infer_parts_unfold)
    qed
  qed
qed

lemma infer_parts_None:
  "infer_parts f = None \<longleftrightarrow>
     re_match pat1 (rev f) = None \<and> re_match (AnyStar # tail2) (rev f) = None \<and>
     re_match (AnyStar # tail3) (rev f) = None"
  by (simp add: infer_parts_unfold split: option.splits)

subsection \<open>Where the parts lie in the filename\<close>

lemma rev_takeWhile_split: "rev xs = rev (dropWhile P xs) @ rev (takeWhile P xs)"
proof -
  have "rev xs = rev (takeWhile P xs @ dropWhile P xs)" by simp
  then show ?thesis by (simp only: rev_append)
qed

lemma last_rev_takeWhile:
  assumes "R = [] \<or> \<not> Q (hd R)"
  shows "rev (takeWhile P R) = [] \<or> \<not> Q (last (rev (takeWhile P R)))"
proof (cases R)
  case Nil
  then show ?thesis by simp
next
  case (Cons a R')
  with assms show ?thesis by (cases "P a") (simp_all add: last_rev)
qed

lemma infer_parts_shape:
  assumes "infer_parts f = Some (pre, ds, exten)"
  shows "ds \<noteq> [] \<and> list_all is_digit ds \<and> (\<exists>dropped. f = dropped @ pre @ ds @ exten) \<and>
         (pre = [] \<or> \<not> is_digit (last pre)) \<and>
         ((exten = [] \<and> (\<exists>p. pre = p @ ''.'')) \<or> (\<exists>e. exten = CHR ''.'' # e))"
proof -
  consider
    (one) g1 g2 where "re_match pat1 (rev f) = Some [g1, g2]"
         "pre = rev g2 @ ''.''" "ds = rev g1" "exten = ''''"
  | (two) g1 g2 g3 where "re_match (AnyStar # tail2) (rev f) = Some [g1, g2, g3]"
         "pre = rev g3 @ ''_''" "ds = rev g2" "exten = ''.'' @ rev g1"
  | (three) g1 g2 g3 where "re_match (AnyStar # tail3) (rev f) = Some [g1, g2, g3]"
         "pre = rev g3" "ds = rev g2" "exten = ''.'' @ rev g1"
    using assms unfolding infer_parts_Some by blast
  then show ?thesis
  proof cases
    case one
    from one(1) obtain xs where m: "rev f = g1 @ CHR ''.'' # xs" "g1 \<noteq> []" "list_all is_digit g1"
        "g2 = takeWhile not_newline xs"
      unfolding pat1_Some by auto
    have "f = rev (g1 @ CHR ''.'' # xs)" using m(1) by (metis rev_rev_ident)
    then have "f = rev xs @ ''.'' @ rev g1" by simp
    then have "f = rev (dropWhile not_newline xs) @ pre @ ds @ exten"
      using one(2-4) m(4) rev_takeWhile_split[of xs not_newline] by simp
    then show ?thesis using m(2,3) one(2-4) by auto
  next
    case two
    from two(1) obtain r xs where m: "rev f = g1 @ r" "r = CHR ''.'' # g2 @ CHR ''_'' # xs"
        "g2 \<noteq> []" "list_all is_digit g2" "g3 = takeWhile not_newline xs"
      unfolding star_Some tail2_Some by auto
    have "f = rev (g1 @ CHR ''.'' # g2 @ CHR ''_'' # xs)" using m(1,2) by (metis rev_rev_ident)
    then have "f = rev xs @ ''_'' @ rev g2 @ ''.'' @ rev g1" by simp
    then have "f = rev (dropWhile not_newline xs) @ pre @ ds @ exten"
      using two(2-4) m(5) rev_takeWhile_split[of xs not_newline] by simp
    then show ?thesis using m(3,4) two(2-4) by auto
  next
    case three
    from three(1) obtain r R where m: "rev f = g1 @ r" "r = CHR ''.'' # g2 @ R"
        "g2 \<noteq> []" "list_all is_digit g2" "R = [] \<or> \<not> is_digit (hd R)"
        "g3 = takeWhile not_newline R"
      unfolding star_Some tail3_Some by auto
    have "f = rev (g1 @ CHR ''.'' # g2 @ R)" using m(1,2) by (metis rev_rev_ident)
    then have "f = rev R @ rev g2 @ ''.'' @ rev g1" by simp
    then have "f = rev (dropWhile not_newline R) @ pre @ ds @ exten"
      using three(2-4) m(6) rev_takeWhile_split[of R not_newline] by simp
    moreover have "pre = [] \<or> \<not> is_digit (last pre)"
      unfolding three(2) m(6) using m(5) by (rule last_rev_takeWhile[where Q=is_digit])
    ultimately show ?thesis using m(3,4) three(3,4) by auto
  qed
qed

subsection \<open>The value of the digits and the result of template_regex\<close>


lemma dec_snoc: "dec (s @ [c]) = 10 * dec s + digit_val c"
  by (simp add: dec_def)


lemma template_regex_Some:
  assumes "infer_parts f = Some (pre, ds, exten)"
  shows "template_regex f = Inr (Some (pre @ replicate (length ds) CHR ''#'' @ exten), int (dec ds))"
proof -
  have "ds \<noteq> []" "list_all is_digit ds"
    using infer_parts_shape[OF assms] by simp_all
  then show ?thesis
    using assms by (simp add: template_regex_def canonical_def map_replicate_const)
qed

lemma template_regex_None:
  "infer_parts f = None \<Longrightarrow> template_regex f = Inr (None, 0)"
  by (simp add: template_regex_def)

lemma template_regex_total: "\<exists>t i. template_regex f = Inr (t, i)"
proof (cases "infer_parts f")
  case None
  then show ?thesis by (simp add: template_regex_None)
next
  case (Some p)
  then obtain pre ds exten where "infer_parts f = Some (pre, ds, exten)"
    by (cases p) auto
  then show ?thesis by (simp add: template_regex_Some)
qed


lemma template_regex_None_iff:
  "template_regex f = Inr (None, i) \<longleftrightarrow> infer_parts f = None \<and> i = 0"
proof (cases "infer_parts f")
  case None
  then show ?thesis by (auto simp add: template_regex_None)
next
  case (Some p)
  then obtain pre ds exten where p: "infer_parts f = Some (pre, ds, exten)"
    by (cases p) auto
  show ?thesis unfolding template_regex_Some[OF p] using p by auto
qed

lemma digit_next_to_dot_append:
  "digit_next_to_dot (y # r) \<Longrightarrow> digit_next_to_dot (a @ y # r)"
proof (induction a)
  case Nil
  then show ?case by simp
next
  case (Cons x a)
  then show ?case by (cases a) auto
qed

lemma digit_next_to_dot_mid:
  "(x = CHR ''.'' \<and> is_digit y) \<or> (is_digit x \<and> y = CHR ''.'') \<Longrightarrow>
     digit_next_to_dot (a @ x # y # r)"
  by (rule digit_next_to_dot_append) auto

lemma infer_parts_dot:
  assumes "infer_parts f = Some p"
  shows "CHR ''.'' \<in> set f \<and> digit_next_to_dot f"
proof -
  obtain pre ds exten where p: "infer_parts f = Some (pre, ds, exten)"
    using assms by (cases p) auto
  from infer_parts_shape[OF p] obtain dropped where
    s: "ds \<noteq> []" "list_all is_digit ds" "f = dropped @ pre @ ds @ exten"
       "(exten = [] \<and> (\<exists>p. pre = p @ ''.'')) \<or> (\<exists>e. exten = CHR ''.'' # e)"
    by blast
  from s(1) obtain d0 ds0 where hd: "ds = d0 # ds0" by (cases ds) auto
  from s(1) obtain ds1 d1 where lst: "ds = ds1 @ [d1]" by (cases ds rule: rev_cases) auto
  have "is_digit d0" using s(2) hd by simp
  moreover have "is_digit d1" using s(2) unfolding lst by simp
  ultimately have dig: "is_digit d0" "is_digit d1" .
  from s(4) show ?thesis
  proof
    assume "exten = [] \<and> (\<exists>p. pre = p @ ''.'')"
    then obtain q where "exten = []" "pre = q @ ''.''" by blast
    then have f: "f = (dropped @ q) @ CHR ''.'' # d0 # ds0" using s(3) hd by simp
    have "digit_next_to_dot f"
      unfolding f using dig(1) by (intro digit_next_to_dot_mid) simp
    then show ?thesis using f by simp
  next
    assume "\<exists>e. exten = CHR ''.'' # e"
    then obtain e where "exten = CHR ''.'' # e" by blast
    then have f: "f = (dropped @ pre @ ds1) @ d1 # CHR ''.'' # e" using s(3) lst by simp
    have "digit_next_to_dot f"
      unfolding f using dig(2) by (intro digit_next_to_dot_mid) simp
    then show ?thesis using f by simp
  qed
qed

subsection \<open>Claims on the result of template_regex\<close>



text \<open>
  C8. When none of the three patterns matches the reversed filename, \<open>template_regex\<close>
  returns \<open>(None, 0)\<close> as an ordinary result. That is the case in particular for a filename
  without a dot and for a filename in which no digit stands next to a dot. The function takes
  the filename only, so it reads nothing else.
\<close>

theorem C8_no_match:
  assumes "(\<forall>p \<in> set patterns. re_match p (rev filename) = None) \<or>
           CHR ''.'' \<notin> set filename \<or> \<not> digit_next_to_dot filename"
  shows "template_regex filename = Inr (None, 0)"
proof -
  have "infer_parts filename = None"
  proof (cases "infer_parts filename")
    case None
    then show ?thesis .
  next
    case (Some p)
    from infer_parts_dot[OF Some] assms
    have "\<forall>p \<in> set patterns. re_match p (rev filename) = None" by blast
    then have "infer_parts filename = None"
      unfolding infer_parts_None by (simp add: patterns_def)
    with Some show ?thesis by simp
  qed
  then show ?thesis by (rule template_regex_None)
qed

theorem C8_no_match_witness:
  "((\<forall>p \<in> set patterns. re_match p (rev ''README'') = None) \<or>
      CHR ''.'' \<notin> set ''README'' \<or> \<not> digit_next_to_dot ''README'') \<and>
   template_regex ''README'' = Inr (None, 0) \<and>
   \<not> digit_next_to_dot ''a.b_c1'' \<and> CHR ''.'' \<in> set ''a.b_c1'' \<and>
   template_regex ''a.b_c1'' = Inr (None, 0)"
proof -
  have h1: "CHR ''.'' \<notin> set ''README''" by simp
  have h2: "\<not> digit_next_to_dot ''a.b_c1''" by (simp add: is_digit_def)
  show ?thesis
    using C8_no_match[of "''README''"] C8_no_match[of "''a.b_c1''"] h1 h2 by simp
qed

text \<open>
  C3. There are exactly three patterns, tried in the order of the list. When the first matches,
  the result is built from its groups whatever patterns follow it in the list; when the first
  fails and the second matches, the result is built from the groups of the second whatever
  follows; the third decides the result only when the first and the second have both failed.
\<close>

theorem C3_priority_order:
  "length patterns = 3 \<and>
   (\<forall>g. re_match (patterns ! 0) (rev filename) = Some g \<longrightarrow>
        infer_parts filename = Some (parts_of 0 g) \<and>
        (\<forall>cps. try_patterns 0 (patterns ! 0 # cps) (rev filename) = Some (parts_of 0 g))) \<and>
   (\<forall>g. re_match (patterns ! 0) (rev filename) = None \<and>
        re_match (patterns ! 1) (rev filename) = Some g \<longrightarrow>
        infer_parts filename = Some (parts_of 1 g) \<and>
        (\<forall>cps. try_patterns 0 (patterns ! 0 # patterns ! 1 # cps) (rev filename) =
                 Some (parts_of 1 g))) \<and>
   (re_match (patterns ! 0) (rev filename) = None \<and>
    re_match (patterns ! 1) (rev filename) = None \<longrightarrow>
        infer_parts filename = map_option (parts_of 2) (re_match (patterns ! 2) (rev filename)))"
  unfolding patterns_nth
  by (auto simp: infer_parts_unfold split: option.splits)

theorem C3_priority_order_witness:
  "re_match (patterns ! 0) (rev ''image.0001'') = Some [''1000'', ''egami''] \<and>
   infer_parts ''image.0001'' = Some (parts_of 0 [''1000'', ''egami'']) \<and>
   try_patterns 0 (patterns ! 0 # []) (rev ''image.0001'') = Some (parts_of 0 [''1000'', ''egami'']) \<and>
   re_match (patterns ! 0) (rev ''foo_0001.cbf'') = None \<and>
   re_match (patterns ! 1) (rev ''foo_0001.cbf'') = Some [''fbc'', ''1000'', ''oof''] \<and>
   infer_parts ''foo_0001.cbf'' = Some (parts_of 1 [''fbc'', ''1000'', ''oof'']) \<and>
   re_match (patterns ! 0) (rev ''a1.b'') = None \<and>
   re_match (patterns ! 1) (rev ''a1.b'') = None \<and>
   infer_parts ''a1.b'' = map_option (parts_of 2) (re_match (patterns ! 2) (rev ''a1.b'')) \<and>
   infer_parts ''a1.b'' = Some (''a'', ''1'', ''.b'')"
proof -
  have a: "re_match (patterns ! 0) (rev ''image.0001'') = Some [''1000'', ''egami'']"
    by code_simp
  have b: "re_match (patterns ! 0) (rev ''foo_0001.cbf'') = None"
          "re_match (patterns ! 1) (rev ''foo_0001.cbf'') = Some [''fbc'', ''1000'', ''oof'']"
    by code_simp+
  have c: "re_match (patterns ! 0) (rev ''a1.b'') = None"
          "re_match (patterns ! 1) (rev ''a1.b'') = None"
          "re_match (patterns ! 2) (rev ''a1.b'') = Some [''b'', ''1'', ''a'']"
    by code_simp+
  have d: "parts_of 2 [''b'', ''1'', ''a''] = (''a'', ''1'', ''.b'')"
    by code_simp
  show ?thesis
    using C3_priority_order[of "''image.0001''"] C3_priority_order[of "''foo_0001.cbf''"]
      C3_priority_order[of "''a1.b''"] a b c d
    by simp
qed

subsection \<open>Matches that do not depend on the digits\<close>

lemma append_eq_longer:
  assumes "a @ b = c @ d" "length a < length c"
  shows "\<exists>us. us \<noteq> [] \<and> c = a @ us \<and> b = us @ d"
proof -
  from assms(1) obtain us where "(a = c @ us \<and> us @ b = d) \<or> (a @ us = c \<and> b = us @ d)"
    unfolding append_eq_append_conv2 by blast
  then show ?thesis
  proof
    assume "a = c @ us \<and> us @ b = d"
    with assms(2) show ?thesis by simp
  next
    assume "a @ us = c \<and> b = us @ d"
    with assms(2) show ?thesis by (intro exI[of _ us]) auto
  qed
qed

lemma pat1_ne:
  "re_match pat1 s \<noteq> None \<longleftrightarrow>
     (\<exists>ds xs. s = ds @ CHR ''.'' # xs \<and> ds \<noteq> [] \<and> list_all is_digit ds)"
proof -
  have "re_match pat1 s \<noteq> None \<longleftrightarrow> (\<exists>gs. re_match pat1 s = Some gs)" by auto
  then show ?thesis unfolding pat1_Some by blast
qed

lemma tail2_ne:
  "re_match tail2 s \<noteq> None \<longleftrightarrow>
     (\<exists>ds xs. s = CHR ''.'' # ds @ CHR ''_'' # xs \<and> ds \<noteq> [] \<and> list_all is_digit ds)"
proof -
  have "re_match tail2 s \<noteq> None \<longleftrightarrow> (\<exists>gs. re_match tail2 s = Some gs)" by auto
  then show ?thesis unfolding tail2_Some by blast
qed

lemma tail3_ne:
  "re_match tail3 s \<noteq> None \<longleftrightarrow> (\<exists>d xs. s = CHR ''.'' # d # xs \<and> is_digit d)"
proof -
  have "re_match tail3 s \<noteq> None \<longleftrightarrow>
      (\<exists>t. s = CHR ''.'' # t \<and> takeWhile is_digit t \<noteq> [])"
    unfolding tail_gen by (auto split: list.splits)
  also have "\<dots> \<longleftrightarrow> (\<exists>d xs. s = CHR ''.'' # d # xs \<and> is_digit d)"
  proof
    assume "\<exists>t. s = CHR ''.'' # t \<and> takeWhile is_digit t \<noteq> []"
    then obtain t where t: "s = CHR ''.'' # t" "takeWhile is_digit t \<noteq> []" by blast
    then show "\<exists>d xs. s = CHR ''.'' # d # xs \<and> is_digit d"
      by (cases t) (auto split: if_splits)
  next
    assume "\<exists>d xs. s = CHR ''.'' # d # xs \<and> is_digit d"
    then show "\<exists>t. s = CHR ''.'' # t \<and> takeWhile is_digit t \<noteq> []" by auto
  qed
  finally show ?thesis .
qed

lemma tail2_head: "re_match tail2 r \<noteq> None \<Longrightarrow> \<exists>t. r = CHR ''.'' # t"
  unfolding tail2_ne by blast

lemma tail3_head: "re_match tail3 r \<noteq> None \<Longrightarrow> \<exists>t. r = CHR ''.'' # t"
  unfolding tail3_ne by blast

lemma tail2_ext:
  assumes "re_match tail2 r \<noteq> None"
  shows "re_match tail2 (r @ x) \<noteq> None"
proof -
  from assms obtain ds xs where d: "r = CHR ''.'' # ds @ CHR ''_'' # xs" "ds \<noteq> []"
      "list_all is_digit ds"
    unfolding tail2_ne by blast
  then have "r @ x = CHR ''.'' # ds @ CHR ''_'' # (xs @ x)" by simp
  with d(2,3) show ?thesis unfolding tail2_ne by blast
qed

lemma tail3_ext: "re_match tail3 r \<noteq> None \<Longrightarrow> re_match tail3 (r @ x) \<noteq> None"
  unfolding tail3_ne by auto

lemma digits_no_dot: "list_all is_digit ds \<Longrightarrow> CHR ''.'' \<notin> set ds"
  by (auto simp: list_all_iff)

lemma digits_no_us: "list_all is_digit ds \<Longrightarrow> CHR ''_'' \<notin> set ds"
  by (auto simp: list_all_iff)

lemma tail3_ctx:
  assumes "h \<noteq> []" "re_match tail3 (h @ CHR ''.'' # X) \<noteq> None"
  shows "re_match tail3 (h @ CHR ''.'' # Y) \<noteq> None"
proof -
  from assms(2) obtain d xs where d: "h @ CHR ''.'' # X = CHR ''.'' # d # xs" "is_digit d"
    unfolding tail3_ne by blast
  from assms(1) d(1) obtain h' where h: "h = CHR ''.'' # h'" by (cases h) auto
  with d have "h' \<noteq> []" by auto
  with d h obtain h'' where "h' = d # h''" by (cases h') auto
  with h d(2) show ?thesis unfolding tail3_ne by auto
qed

lemma tail2_ctx:
  assumes "h \<noteq> []" "re_match tail2 (h @ CHR ''.'' # X) \<noteq> None"
  shows "re_match tail2 (h @ CHR ''.'' # Y) \<noteq> None"
proof -
  from assms(2) obtain ds xs where d: "h @ CHR ''.'' # X = CHR ''.'' # ds @ CHR ''_'' # xs"
      "ds \<noteq> []" "list_all is_digit ds"
    unfolding tail2_ne by blast
  from assms(1) d(1) obtain h' where h: "h = CHR ''.'' # h'" by (cases h) auto
  with d(1) have eq: "h' @ (CHR ''.'' # X) = ds @ (CHR ''_'' # xs)" by simp
  then obtain us where
    "(h' = ds @ us \<and> us @ CHR ''.'' # X = CHR ''_'' # xs) \<or>
     (h' @ us = ds \<and> CHR ''.'' # X = us @ CHR ''_'' # xs)"
    unfolding append_eq_append_conv2 by blast
  then show ?thesis
  proof
    assume a: "h' = ds @ us \<and> us @ CHR ''.'' # X = CHR ''_'' # xs"
    then obtain us' where "us = CHR ''_'' # us'" by (cases us) auto
    with a h have "h @ CHR ''.'' # Y = CHR ''.'' # ds @ CHR ''_'' # (us' @ CHR ''.'' # Y)" by simp
    with d(2,3) show ?thesis unfolding tail2_ne by blast
  next
    assume a: "h' @ us = ds \<and> CHR ''.'' # X = us @ CHR ''_'' # xs"
    then have "us \<noteq> []" by auto
    with a obtain us' where "us = CHR ''.'' # us'" by (cases us) auto
    with a have "CHR ''.'' \<in> set ds" by auto
    with digits_no_dot[OF d(3)] show ?thesis by simp
  qed
qed

lemma pat1_ctx:
  assumes "re_match pat1 (g @ CHR ''.'' # X) \<noteq> None"
  shows "re_match pat1 (g @ CHR ''.'' # Y) \<noteq> None"
proof -
  from assms obtain ds xs where d: "g @ (CHR ''.'' # X) = ds @ (CHR ''.'' # xs)"
      "ds \<noteq> []" "list_all is_digit ds"
    unfolding pat1_ne by blast
  then obtain us where
    "(g = ds @ us \<and> us @ CHR ''.'' # X = CHR ''.'' # xs) \<or>
     (g @ us = ds \<and> CHR ''.'' # X = us @ CHR ''.'' # xs)"
    unfolding append_eq_append_conv2 by blast
  then show ?thesis
  proof
    assume a: "g = ds @ us \<and> us @ CHR ''.'' # X = CHR ''.'' # xs"
    show ?thesis
    proof (cases us)
      case Nil
      with a d(2,3) show ?thesis unfolding pat1_ne by auto
    next
      case (Cons u us')
      with a have "g @ CHR ''.'' # Y = ds @ CHR ''.'' # (us' @ CHR ''.'' # Y)" by simp
      with d(2,3) show ?thesis unfolding pat1_ne by blast
    qed
  next
    assume a: "g @ us = ds \<and> CHR ''.'' # X = us @ CHR ''.'' # xs"
    show ?thesis
    proof (cases us)
      case Nil
      with a d(2,3) show ?thesis unfolding pat1_ne by auto
    next
      case (Cons u us')
      with a have "CHR ''.'' \<in> set ds" by auto
      with digits_no_dot[OF d(3)] show ?thesis by simp
    qed
  qed
qed

lemma later_none:
  fixes T :: "string \<Rightarrow> 'a option"
  assumes head: "\<And>r. T r \<noteq> None \<Longrightarrow> \<exists>t. r = CHR ''.'' # t"
    and ext: "\<And>r x. T r \<noteq> None \<Longrightarrow> T (r @ x) \<noteq> None"
    and M': "CHR ''.'' \<notin> set M'"
    and nn: "list_all not_newline (g1 @ CHR ''.'' # M @ g3)"
    and old: "\<forall>g' r'. g1 @ CHR ''.'' # M @ g3 @ rest = g' @ r' \<and> list_all not_newline g' \<and>
                length g1 < length g' \<longrightarrow> T r' = None"
    and split: "g1 @ CHR ''.'' # M' @ g3 = g' @ r'" "length g1 < length g'"
  shows "T r' = None"
proof (rule ccontr)
  assume ne: "T r' \<noteq> None"
  then obtain t where t: "r' = CHR ''.'' # t" using head by blast
  from append_eq_longer[OF split] obtain us where
    us: "us \<noteq> []" "g' = g1 @ us" "CHR ''.'' # M' @ g3 = us @ r'" by blast
  then obtain us' where us': "us = CHR ''.'' # us'" by (cases us) auto
  with us(3) have "M' @ g3 = us' @ r'" by simp
  then obtain w where
    "(M' = us' @ w \<and> w @ g3 = r') \<or> (M' @ w = us' \<and> g3 = w @ r')"
    unfolding append_eq_append_conv2 by blast
  then have "\<exists>w. g3 = w @ r'"
  proof
    assume a: "M' = us' @ w \<and> w @ g3 = r'"
    show ?thesis
    proof (cases w)
      case Nil
      with a show ?thesis by auto
    next
      case (Cons c w')
      with a t have "c = CHR ''.''" by auto
      with a Cons M' show ?thesis by auto
    qed
  next
    assume "M' @ w = us' \<and> g3 = w @ r'"
    then show ?thesis by blast
  qed
  then obtain w where w: "g3 = w @ r'" by blast
  have "g1 @ CHR ''.'' # M @ g3 @ rest = (g1 @ CHR ''.'' # M @ w) @ (r' @ rest)"
    using w by simp
  moreover have "list_all not_newline (g1 @ CHR ''.'' # M @ w)"
    using nn w by simp
  moreover have "length g1 < length (g1 @ CHR ''.'' # M @ w)" by simp
  ultimately have "T (r' @ rest) = None" using old by blast
  with ext[OF ne] show False by blast
qed

lemma earlier_none:
  fixes T :: "string \<Rightarrow> 'a option"
  assumes ctx: "\<And>h X Y. h \<noteq> [] \<Longrightarrow> T (h @ CHR ''.'' # X) \<noteq> None \<Longrightarrow> T (h @ CHR ''.'' # Y) \<noteq> None"
    and old: "\<forall>g' r'. g1 @ CHR ''.'' # X = g' @ r' \<and> list_all not_newline g' \<longrightarrow> T r' = None"
    and split: "g1 @ CHR ''.'' # Y = g' @ r'" "length g' < length g1" "list_all not_newline g'"
  shows "T r' = None"
proof (rule ccontr)
  assume ne: "T r' \<noteq> None"
  from append_eq_longer[OF split(1)[symmetric] split(2)] obtain h where
    h: "h \<noteq> []" "g1 = g' @ h" "r' = h @ CHR ''.'' # Y" by blast
  have "g1 @ CHR ''.'' # X = g' @ (h @ CHR ''.'' # X)" using h(2) by simp
  with old split(3) have "T (h @ CHR ''.'' # X) = None" by blast
  with ctx[OF h(1), of Y X] ne h(3) show False by blast
qed

subsection \<open>Matching again after the digits are replaced\<close>

lemma dot_not_newline [simp]: "not_newline CHR ''.''" and us_not_newline [simp]: "not_newline CHR ''_''"
  by (simp_all add: not_newline_def newline_def)

lemma newline_not_digit: "\<not> is_digit newline"
  by (simp add: is_digit_def newline_def)

lemma digit_not_newline: "is_digit c \<Longrightarrow> not_newline c"
  using newline_not_digit by (cases "c = newline") (simp_all add: not_newline_def)

lemma digits_not_newline: "list_all is_digit ds \<Longrightarrow> list_all not_newline ds"
  by (induction ds) (simp_all add: digit_not_newline)

lemma list_all_takeWhile [simp]: "list_all P (takeWhile P xs)"
  by (auto simp: list_all_iff dest: set_takeWhileD)

lemma pat1_rerender:
  assumes "re_match pat1 s = Some [g1, g2]" "ds' \<noteq> []" "list_all is_digit ds'"
  shows "re_match pat1 (ds' @ CHR ''.'' # g2) = Some [ds', g2]"
proof -
  from assms(1) obtain xs where "g2 = takeWhile not_newline xs"
    unfolding pat1_Some by auto
  then have idem: "takeWhile not_newline g2 = g2" by simp
  show ?thesis
    unfolding pat1_Some
    by (rule exI[of _ ds'], rule exI[of _ g2]) (simp add: assms(2,3) idem)
qed

lemma pat1_none_rerender:
  assumes "re_match pat1 (g1 @ CHR ''.'' # X) = None"
  shows "re_match pat1 (g1 @ CHR ''.'' # Y) = None"
  using assms pat1_ctx[of g1 Y X] by blast

lemma pat2_rerender:
  assumes "re_match (AnyStar # tail2) s = Some [g1, g2, g3]" "ds' \<noteq> []" "list_all is_digit ds'"
  shows "re_match (AnyStar # tail2) (g1 @ CHR ''.'' # ds' @ CHR ''_'' # g3) = Some [g1, ds', g3]"
proof -
  from assms(1) obtain g r gs' where
    m0: "s = g @ r" "list_all not_newline g" "re_match tail2 r = Some gs'" "[g1, g2, g3] = g # gs'"
       "\<forall>g' r'. s = g' @ r' \<and> list_all not_newline g' \<and> length g < length g'
            \<longrightarrow> re_match tail2 r' = None"
    unfolding star_Some by blast
  from m0(4) have "g = g1" "gs' = [g2, g3]" by simp_all
  with m0 have
    m: "s = g1 @ r" "list_all not_newline g1" "re_match tail2 r = Some [g2, g3]"
       "\<forall>g' r'. s = g' @ r' \<and> list_all not_newline g' \<and> length g1 < length g'
            \<longrightarrow> re_match tail2 r' = None"
    by simp_all
  from m(3) obtain xs where
    t: "r = CHR ''.'' # g2 @ CHR ''_'' # xs" "g2 \<noteq> []" "list_all is_digit g2"
       "g3 = takeWhile not_newline xs"
    unfolding tail2_Some by auto
  let ?rest = "dropWhile not_newline xs"
  have xs: "xs = g3 @ ?rest" using t(4) by simp
  have s: "s = g1 @ CHR ''.'' # (g2 @ ''_'') @ g3 @ ?rest"
    using m(1) t(1) xs by simp
  have nn: "list_all not_newline (g1 @ CHR ''.'' # (g2 @ ''_'') @ g3)"
    using m(2) digits_not_newline[OF t(3)] t(4) by simp
  have M': "CHR ''.'' \<notin> set (ds' @ ''_'')"
    using digits_no_dot[OF assms(3)] by simp
  have g3: "takeWhile not_newline g3 = g3" using t(4) by simp
  have later: "\<forall>g' r'. g1 @ CHR ''.'' # ds' @ CHR ''_'' # g3 = g' @ r' \<and> list_all not_newline g' \<and>
       length g1 < length g' \<longrightarrow> re_match tail2 r' = None"
  proof (intro allI impI)
    fix g' r'
    assume a: "g1 @ CHR ''.'' # ds' @ CHR ''_'' # g3 = g' @ r' \<and> list_all not_newline g' \<and>
       length g1 < length g'"
    then have sp: "g1 @ CHR ''.'' # (ds' @ ''_'') @ g3 = g' @ r'" "length g1 < length g'"
      by simp_all
    show "re_match tail2 r' = None"
      by (rule later_none[where T="re_match tail2", OF tail2_head tail2_ext M' nn
            m(4)[unfolded s] sp])
  qed
  have "re_match tail2 (CHR ''.'' # ds' @ CHR ''_'' # g3) = Some [ds', g3]"
    unfolding tail2_Some
    by (rule exI[of _ ds'], rule exI[of _ g3]) (simp add: assms(2,3) g3)
  with m(2) later show ?thesis
    unfolding star_Some
    by (intro exI[of _ g1] exI[of _ "CHR ''.'' # ds' @ CHR ''_'' # g3"] exI[of _ "[ds', g3]"]) simp
qed

lemma pat3_rerender:
  assumes "re_match (AnyStar # tail3) s = Some [g1, g2, g3]" "ds' \<noteq> []" "list_all is_digit ds'"
  shows "re_match (AnyStar # tail3) (g1 @ CHR ''.'' # ds' @ g3) = Some [g1, ds', g3]"
proof -
  from assms(1) obtain g r gs' where
    m0: "s = g @ r" "list_all not_newline g" "re_match tail3 r = Some gs'" "[g1, g2, g3] = g # gs'"
       "\<forall>g' r'. s = g' @ r' \<and> list_all not_newline g' \<and> length g < length g'
            \<longrightarrow> re_match tail3 r' = None"
    unfolding star_Some by blast
  from m0(4) have "g = g1" "gs' = [g2, g3]" by simp_all
  with m0 have
    m: "s = g1 @ r" "list_all not_newline g1" "re_match tail3 r = Some [g2, g3]"
       "\<forall>g' r'. s = g' @ r' \<and> list_all not_newline g' \<and> length g1 < length g'
            \<longrightarrow> re_match tail3 r' = None"
    by simp_all
  from m(3) obtain R where
    t: "r = CHR ''.'' # g2 @ R" "g2 \<noteq> []" "list_all is_digit g2"
       "R = [] \<or> \<not> is_digit (hd R)" "g3 = takeWhile not_newline R"
    unfolding tail3_Some by auto
  let ?rest = "dropWhile not_newline R"
  have R: "R = g3 @ ?rest" using t(5) by simp
  have s: "s = g1 @ CHR ''.'' # g2 @ g3 @ ?rest"
    using m(1) t(1) R by simp
  have nn: "list_all not_newline (g1 @ CHR ''.'' # g2 @ g3)"
    using m(2) digits_not_newline[OF t(3)] t(5) by simp
  have M': "CHR ''.'' \<notin> set ds'"
    using digits_no_dot[OF assms(3)] by simp
  have g3: "takeWhile not_newline g3 = g3" using t(5) by simp
  have hd3: "g3 = [] \<or> \<not> is_digit (hd g3)"
    using t(4,5) by (cases R) (auto split: if_splits)
  have later: "\<forall>g' r'. g1 @ CHR ''.'' # ds' @ g3 = g' @ r' \<and> list_all not_newline g' \<and>
       length g1 < length g' \<longrightarrow> re_match tail3 r' = None"
  proof (intro allI impI)
    fix g' r'
    assume a: "g1 @ CHR ''.'' # ds' @ g3 = g' @ r' \<and> list_all not_newline g' \<and>
       length g1 < length g'"
    then have sp: "g1 @ CHR ''.'' # ds' @ g3 = g' @ r'" "length g1 < length g'"
      by simp_all
    show "re_match tail3 r' = None"
      by (rule later_none[where T="re_match tail3", OF tail3_head tail3_ext M' nn
            m(4)[unfolded s] sp])
  qed
  have "re_match tail3 (CHR ''.'' # ds' @ g3) = Some [ds', g3]"
    unfolding tail3_Some
    by (rule exI[of _ ds'], rule exI[of _ g3]) (simp add: assms(2,3) g3 hd3)
  with m(2) later show ?thesis
    unfolding star_Some
    by (intro exI[of _ g1] exI[of _ "CHR ''.'' # ds' @ g3"] exI[of _ "[ds', g3]"]) simp
qed

lemma pat2_none_rerender:
  assumes none: "re_match (AnyStar # tail2) s = None"
    and some: "re_match (AnyStar # tail3) s = Some [g1, g2, g3]"
    and ds': "ds' \<noteq> []" "list_all is_digit ds'"
  shows "re_match (AnyStar # tail2) (g1 @ CHR ''.'' # ds' @ g3) = None"
proof -
  from some obtain g r gs' where
    m0: "s = g @ r" "list_all not_newline g" "re_match tail3 r = Some gs'" "[g1, g2, g3] = g # gs'"
    unfolding star_Some by blast
  from m0(4) have "g = g1" "gs' = [g2, g3]" by simp_all
  with m0 have
    m: "s = g1 @ r" "list_all not_newline g1" "re_match tail3 r = Some [g2, g3]"
    by simp_all
  from m(3) obtain R where
    t: "r = CHR ''.'' # g2 @ R" "g2 \<noteq> []" "list_all is_digit g2"
       "R = [] \<or> \<not> is_digit (hd R)" "g3 = takeWhile not_newline R"
    unfolding tail3_Some by auto
  let ?rest = "dropWhile not_newline R"
  have R: "R = g3 @ ?rest" using t(5) by simp
  have s: "s = g1 @ CHR ''.'' # g2 @ g3 @ ?rest"
    using m(1) t(1) R by simp
  have nn: "list_all not_newline (g1 @ CHR ''.'' # g2 @ g3)"
    using m(2) digits_not_newline[OF t(3)] t(5) by simp
  have M': "CHR ''.'' \<notin> set ds'"
    using digits_no_dot[OF ds'(2)] by simp
  have hd3: "g3 = [] \<or> \<not> is_digit (hd g3)"
    using t(4,5) by (cases R) (auto split: if_splits)
  from none have old: "\<forall>g r. s = g @ r \<and> list_all not_newline g \<longrightarrow> re_match tail2 r = None"
    unfolding star_None .
  have old_later: "\<forall>g' r'. g1 @ CHR ''.'' # g2 @ g3 @ ?rest = g' @ r' \<and> list_all not_newline g' \<and>
                length g1 < length g' \<longrightarrow> re_match tail2 r' = None"
    using old unfolding s by blast
  have old_earlier: "\<forall>g' r'. g1 @ CHR ''.'' # (g2 @ g3 @ ?rest) = g' @ r' \<and>
      list_all not_newline g' \<longrightarrow> re_match tail2 r' = None"
    using old unfolding s by blast
  have at: "re_match tail2 (CHR ''.'' # g2 @ R) = None"
    using old m(1,2) t(1) by blast
  have no_us: "g3 = [] \<or> hd g3 \<noteq> CHR ''_''"
  proof (rule ccontr)
    assume "\<not> (g3 = [] \<or> hd g3 \<noteq> CHR ''_'')"
    then obtain g3' where "g3 = CHR ''_'' # g3'" by (cases g3) auto
    then have "g3 @ ?rest = CHR ''_'' # (g3' @ ?rest)" by simp
    then have "R = CHR ''_'' # (g3' @ ?rest)" using R by (simp only:)
    then have "CHR ''.'' # g2 @ R = CHR ''.'' # g2 @ CHR ''_'' # (g3' @ ?rest)"
      by (simp only:)
    with t(2,3) have "re_match tail2 (CHR ''.'' # g2 @ R) \<noteq> None"
      unfolding tail2_ne by blast
    with at show False by simp
  qed
  have here: "re_match tail2 (CHR ''.'' # ds' @ g3) = None"
  proof (rule ccontr)
    assume "re_match tail2 (CHR ''.'' # ds' @ g3) \<noteq> None"
    then obtain ds0 xs0 where d: "ds' @ g3 = ds0 @ CHR ''_'' # xs0" "list_all is_digit ds0"
      unfolding tail2_ne by auto
    have "dropWhile is_digit (ds' @ g3) = g3"
      by (rule run_split(2)[OF ds'(2) hd3])
    moreover have "dropWhile is_digit (ds0 @ CHR ''_'' # xs0) = CHR ''_'' # xs0"
      by (rule run_split(2)[OF d(2)]) simp
    ultimately have "g3 = CHR ''_'' # xs0" using d(1) by simp
    with no_us show False by simp
  qed
  show ?thesis
    unfolding star_None
  proof (intro allI impI)
    fix g r
    assume a: "g1 @ CHR ''.'' # ds' @ g3 = g @ r \<and> list_all not_newline g"
    consider "length g < length g1" | "length g = length g1" | "length g1 < length g"
      by linarith
    then show "re_match tail2 r = None"
    proof cases
      case 1
      have sp: "g1 @ CHR ''.'' # (ds' @ g3) = g @ r" "list_all not_newline g"
        using a by blast+
      show ?thesis
        by (rule earlier_none[where T="re_match tail2", OF tail2_ctx old_earlier sp(1) 1 sp(2)])
    next
      case 2
      with a have "g = g1" "r = CHR ''.'' # ds' @ g3" by auto
      with here show ?thesis by simp
    next
      case 3
      have sp: "g1 @ CHR ''.'' # ds' @ g3 = g @ r"
        using a by blast
      show ?thesis
        by (rule later_none[where T="re_match tail2", OF tail2_head tail2_ext M' nn old_later sp 3])
    qed
  qed
qed

lemma star_form:
  assumes "re_match (AnyStar # p) s = Some (g1 # gs)"
    and head: "\<And>r. re_match p r \<noteq> None \<Longrightarrow> \<exists>t. r = CHR ''.'' # t"
  shows "\<exists>X. s = g1 @ CHR ''.'' # X"
proof -
  from assms(1) obtain g r gs' where
    m: "s = g @ r" "re_match p r = Some gs'" "g1 # gs = g # gs'"
    unfolding star_Some by blast
  from m(2) head obtain t where "r = CHR ''.'' # t" by blast
  with m(1,3) show ?thesis by simp
qed

lemma infer_parts_rerender:
  assumes p: "infer_parts f = Some (pre, ds, exten)"
    and ds': "ds' \<noteq> []" "list_all is_digit ds'"
  shows "infer_parts (pre @ ds' @ exten) = Some (pre, ds', exten)"
proof -
  have r: "rev ds' \<noteq> []" "list_all is_digit (rev ds')" using ds' by simp_all
  consider
    (one) g1 g2 where "re_match pat1 (rev f) = Some [g1, g2]"
         "pre = rev g2 @ ''.''" "ds = rev g1" "exten = ''''"
  | (two) g1 g2 g3 where "re_match pat1 (rev f) = None"
         "re_match (AnyStar # tail2) (rev f) = Some [g1, g2, g3]"
         "pre = rev g3 @ ''_''" "ds = rev g2" "exten = ''.'' @ rev g1"
  | (three) g1 g2 g3 where "re_match pat1 (rev f) = None"
         "re_match (AnyStar # tail2) (rev f) = None"
         "re_match (AnyStar # tail3) (rev f) = Some [g1, g2, g3]"
         "pre = rev g3" "ds = rev g2" "exten = ''.'' @ rev g1"
    using p unfolding infer_parts_Some by blast
  then show ?thesis
  proof cases
    case one
    have rv: "rev (pre @ ds' @ exten) = rev ds' @ CHR ''.'' # g2"
      using one(2,4) by simp
    have "re_match pat1 (rev (pre @ ds' @ exten)) = Some [rev ds', g2]"
      unfolding rv by (rule pat1_rerender[OF one(1) r])
    then show ?thesis
      unfolding infer_parts_Some using one(2,4) by simp
  next
    case two
    have rv: "rev (pre @ ds' @ exten) = g1 @ CHR ''.'' # rev ds' @ CHR ''_'' # g3"
      using two(3,5) by simp
    from star_form[OF two(2) tail2_head] obtain X where X: "rev f = g1 @ CHR ''.'' # X"
      by blast
    have n1: "re_match pat1 (rev (pre @ ds' @ exten)) = None"
      unfolding rv by (rule pat1_none_rerender[OF two(1)[unfolded X]])
    have "re_match (AnyStar # tail2) (rev (pre @ ds' @ exten)) = Some [g1, rev ds', g3]"
      unfolding rv by (rule pat2_rerender[OF two(2) r])
    with n1 show ?thesis
      unfolding infer_parts_Some using two(3,5) by simp
  next
    case three
    have rv: "rev (pre @ ds' @ exten) = g1 @ CHR ''.'' # rev ds' @ g3"
      using three(4,6) by simp
    from star_form[OF three(3) tail3_head] obtain X where X: "rev f = g1 @ CHR ''.'' # X"
      by blast
    have n1: "re_match pat1 (rev (pre @ ds' @ exten)) = None"
      unfolding rv by (rule pat1_none_rerender[OF three(1)[unfolded X]])
    have n2: "re_match (AnyStar # tail2) (rev (pre @ ds' @ exten)) = None"
      unfolding rv by (rule pat2_none_rerender[OF three(2,3) r])
    have "re_match (AnyStar # tail3) (rev (pre @ ds' @ exten)) = Some [g1, rev ds', g3]"
      unfolding rv by (rule pat3_rerender[OF three(3) r])
    with n1 n2 show ?thesis
      unfolding infer_parts_Some using three(4,6) by simp
  qed
qed

subsection \<open>Decimal rendering and zero filling\<close>

lemma digit_char_cases:
  assumes "k < 10"
  shows "is_digit (digit_char k) \<and> digit_val (digit_char k) = k"
proof -
  from assms have "k = 0 \<or> k = 1 \<or> k = 2 \<or> k = 3 \<or> k = 4 \<or> k = 5 \<or> k = 6 \<or> k = 7 \<or> k = 8 \<or> k = 9"
    by arith
  then show ?thesis
    by (elim disjE) (simp_all add: digit_char_def is_digit_def digit_val_def)
qed

lemma str_nat_digits: "list_all is_digit (str_nat n)"
proof (induction n rule: str_nat.induct)
  case (1 n)
  show ?case
  proof (cases "n < 10")
    case True
    then show ?thesis by (subst str_nat.simps) (simp add: digit_char_cases)
  next
    case False
    have "n mod 10 < 10" by simp
    then have "is_digit (digit_char (n mod 10))" using digit_char_cases by blast
    with False 1 show ?thesis by (subst str_nat.simps) simp
  qed
qed

lemma str_nat_ne: "str_nat n \<noteq> []"
  by (subst str_nat.simps) simp

lemma dec_str_nat: "dec (str_nat n) = n"
proof (induction n rule: str_nat.induct)
  case (1 n)
  show ?case
  proof (cases "n < 10")
    case True
    then show ?thesis
      by (subst str_nat.simps) (simp add: dec_def digit_char_cases)
  next
    case False
    have "n mod 10 < 10" by simp
    then have "digit_val (digit_char (n mod 10)) = n mod 10" using digit_char_cases by blast
    with False 1 show ?thesis
      by (subst str_nat.simps) (simp add: dec_snoc)
  qed
qed

lemma length_str_nat: "0 < d \<Longrightarrow> n < 10 ^ d \<Longrightarrow> length (str_nat n) \<le> d"
proof (induction n arbitrary: d rule: str_nat.induct)
  case (1 n)
  show ?case
  proof (cases "n < 10")
    case True
    with 1(2) show ?thesis by (subst str_nat.simps) simp
  next
    case False
    obtain e where e: "d = Suc e" using 1(2) by (cases d) auto
    have "0 < e"
    proof (rule ccontr)
      assume "\<not> 0 < e"
      with e 1(3) False show False by simp
    qed
    moreover have "n div 10 < 10 ^ e" using 1(3) e by (simp add: less_mult_imp_div_less mult.commute)
    ultimately have "length (str_nat (n div 10)) \<le> e" using 1(1)[OF False] by blast
    with False e show ?thesis by (subst str_nat.simps) simp
  qed
qed

lemma dec_zero_cons: "dec (CHR ''0'' # s) = dec s"
  by (simp add: dec_def digit_val_def)

lemma dec_zeros: "dec (replicate k CHR ''0'' @ s) = dec s"
  by (induction k) (simp_all add: dec_zero_cons)

lemma zero_digit: "is_digit CHR ''0''"
  by (simp add: is_digit_def)

lemma zfill_digits: "list_all is_digit s \<Longrightarrow> list_all is_digit (zfill w s)"
  by (auto simp add: zfill_def zero_digit list_all_iff)

lemma zfill_str_nat:
  assumes "0 < d" "n < 10 ^ d"
  shows "length (zfill d (str_nat n)) = d" "list_all is_digit (zfill d (str_nat n))"
    "dec (zfill d (str_nat n)) = n" "zfill d (str_nat n) \<noteq> []"
proof -
  show len: "length (zfill d (str_nat n)) = d"
    using length_str_nat[OF assms] by (simp add: zfill_def)
  show "list_all is_digit (zfill d (str_nat n))"
    by (rule zfill_digits[OF str_nat_digits])
  show "dec (zfill d (str_nat n)) = n"
    by (simp add: zfill_def dec_zeros dec_str_nat)
  show "zfill d (str_nat n) \<noteq> []" using len assms(1) by auto
qed

subsection \<open>Claims on the round trip and on the choice of the digit run\<close>

text \<open>
  C4. Round trip: when \<open>template_regex\<close> returns the template \<open>t\<close> for a filename, with
  prefix \<open>pre\<close>, digit run \<open>ds\<close> and suffix \<open>exten\<close>, then for every \<open>i'\<close> below
  \<open>10 ^ length ds\<close> the name made of the prefix, \<open>i'\<close> zero-filled to \<open>length ds\<close> digits and
  the suffix is split by \<open>template_regex\<close> into the same prefix and suffix and a run of the same
  length, and the result is the same template \<open>t\<close> with index \<open>i'\<close>.
\<close>

theorem C4_round_trip:
  assumes "template_regex filename = Inr (Some t, i)"
    and "infer_parts filename = Some (pre, ds, exten)"
    and "i' < 10 ^ length ds"
  shows "infer_parts (pre @ zfill (length ds) (str_nat i') @ exten) =
           Some (pre, zfill (length ds) (str_nat i'), exten) \<and>
         length (zfill (length ds) (str_nat i')) = length ds \<and>
         template_regex (pre @ zfill (length ds) (str_nat i') @ exten) = Inr (Some t, int i')"
proof -
  let ?ds' = "zfill (length ds) (str_nat i')"
  have "ds \<noteq> []" using infer_parts_shape[OF assms(2)] by blast
  then have d: "0 < length ds" by simp
  note z = zfill_str_nat[OF d assms(3)]
  have p': "infer_parts (pre @ ?ds' @ exten) = Some (pre, ?ds', exten)"
    by (rule infer_parts_rerender[OF assms(2) z(4) z(2)])
  have t: "t = pre @ replicate (length ds) CHR ''#'' @ exten"
    using assms(1) unfolding template_regex_Some[OF assms(2)] by simp
  have "template_regex (pre @ ?ds' @ exten) = Inr (Some t, int i')"
    unfolding template_regex_Some[OF p'] t z(1) z(3) ..
  with p' z(1) show ?thesis by blast
qed

theorem C4_round_trip_witness:
  "template_regex ''foo_0001.cbf'' = Inr (Some ''foo_####.cbf'', 1) \<and>
   infer_parts ''foo_0001.cbf'' = Some (''foo_'', ''0001'', ''.cbf'') \<and>
   (42::nat) < 10 ^ length ''0001'' \<and>
   ''foo_'' @ zfill (length ''0001'') (str_nat 42) @ ''.cbf'' = ''foo_0042.cbf'' \<and>
   template_regex (''foo_'' @ zfill (length ''0001'') (str_nat 42) @ ''.cbf'') =
     Inr (Some ''foo_####.cbf'', 42)"
proof -
  have h1: "template_regex ''foo_0001.cbf'' = Inr (Some ''foo_####.cbf'', 1)"
    by code_simp
  have h2: "infer_parts ''foo_0001.cbf'' = Some (''foo_'', ''0001'', ''.cbf'')"
    by code_simp
  have h3: "(42::nat) < 10 ^ length ''0001''" by simp
  have r: "''foo_'' @ zfill (length ''0001'') (str_nat 42) @ ''.cbf'' = ''foo_0042.cbf''"
    by code_simp
  from C4_round_trip[OF h1 h2 h3] h1 h2 h3 r show ?thesis by simp
qed

text \<open>
  C1. In \<^verbatim>\<open>a_1.b_2.c\<close> two digit runs stand between an underscore and a dot. The greedy
  first group of the reversed pattern takes the longest tail, so the placeholder is bound to the
  run next to the dot nearest the start of the filename, not to the one nearest its end.
\<close>

theorem C1_run_nearest_start_is_bound:
  "infer_parts ''a_1.b_2.c'' = Some (''a_'', ''1'', ''.b_2.c'') \<and>
   template_regex ''a_1.b_2.c'' = Inr (Some ''a_#.b_2.c'', 1) \<and>
   template_regex ''a_1.b_2.c'' \<noteq> Inr (Some ''a_1.b_#.c'', 2)"
  by code_simp

subsection \<open>Grouping\<close>

lemma collect_templates_eq:
  "collect_templates template filenames = Inr (template @ map key_value filenames)"
proof (induction filenames arbitrary: template)
  case Nil
  then show ?case by simp
next
  case (Cons f filenames)
  obtain t i where t: "template_regex f = Inr (t, i)"
    using template_regex_total by blast
  then have "key_value f = entry_of f (t, i)" by (simp add: key_value_def)
  with t Cons show ?case by simp
qed

lemma total_values_dict_append:
  "total_values (dict_append k v d) = Suc (total_values d)"
  by (induction d) (auto simp: total_values_def)

lemma values_of_dict_append:
  "values_of (dict_append k v d) k' = (if k' = k then values_of d k @ [v] else values_of d k')"
  by (induction d) (auto simp: values_of_def)

lemma keys_dict_append:
  "fst ` set (dict_append k v d) = insert k (fst ` set d)"
proof (induction d)
  case Nil
  then show ?case by simp
next
  case (Cons a d)
  obtain k' vs where a: "a = (k', vs)" by (cases a)
  show ?case
  proof (cases "k = k'")
    case True
    with a show ?thesis by simp
  next
    case False
    with a Cons show ?thesis by (simp add: insert_commute)
  qed
qed

lemma distinct_dict_append:
  "distinct (map fst d) \<Longrightarrow> distinct (map fst (dict_append k v d))"
proof (induction d)
  case Nil
  then show ?case by simp
next
  case (Cons a d)
  obtain k' vs where a: "a = (k', vs)" by (cases a)
  show ?case
  proof (cases "k = k'")
    case True
    with a Cons show ?thesis by simp
  next
    case False
    have "k' \<notin> fst ` set (dict_append k v d)"
      unfolding keys_dict_append using Cons(2) a False by auto
    with a False Cons show ?thesis by simp
  qed
qed

lemma total_values_fill:
  "total_values (fill_matched d ts) = total_values d + length ts"
  by (induction ts arbitrary: d) (simp_all add: total_values_dict_append)

lemma values_of_fill:
  "values_of (fill_matched d ts) k = values_of d k @ map snd (filter (\<lambda>t. fst t = k) ts)"
  by (induction ts arbitrary: d) (simp_all add: values_of_dict_append)

lemma distinct_fill:
  "distinct (map fst d) \<Longrightarrow> distinct (map fst (fill_matched d ts))"
  by (induction ts arbitrary: d) (simp_all add: distinct_dict_append)

lemma keys_fill:
  "fst ` set (fill_matched d ts) = fst ` set d \<union> fst ` set ts"
  by (induction ts arbitrary: d) (simp_all add: keys_dict_append)

text \<open>
  C5. For every list of filenames the grouping returns a dictionary (it does not raise); its
  keys are distinct and are exactly the keys of the filenames; the lengths of its value lists
  add up to the number of filenames; and the value list of every key is the list of the values
  of the filenames with that key, in the order of the input, repetitions included.
\<close>

theorem C5_grouping_complete:
  "\<exists>matched. group_files_by_imageset filenames = Inr matched \<and>
      total_values matched = length filenames \<and>
      distinct (map fst matched) \<and>
      set (map fst matched) = set (map (\<lambda>f. fst (key_value f)) filenames) \<and>
      (\<forall>k. values_of matched k =
            map snd (filter (\<lambda>e. fst e = k) (map key_value filenames)))"
proof -
  let ?m = "fill_matched [] (map key_value filenames)"
  have g: "group_files_by_imageset filenames = Inr ?m"
    by (simp add: group_files_by_imageset_def collect_templates_eq)
  have 1: "total_values ?m = length filenames"
    unfolding total_values_fill by (simp add: total_values_def)
  have 2: "distinct (map fst ?m)"
    by (rule distinct_fill) simp
  have 3: "set (map fst ?m) = set (map (\<lambda>f. fst (key_value f)) filenames)"
    by (simp add: keys_fill image_image)
  have 4: "\<forall>k. values_of ?m k = map snd (filter (\<lambda>e. fst e = k) (map key_value filenames))"
    unfolding values_of_fill by (simp add: values_of_def)
  from g 1 2 3 4 show ?thesis by blast
qed

theorem C5_grouping_complete_witness:
  "group_files_by_imageset [''a_002.img'', ''b.dat'', ''a_001.img'', ''a_002.img''] =
      Inr [(''a_###.img'', [Some 2, Some 1, Some 2]), (''b.dat'', [None])] \<and>
   (\<exists>matched. group_files_by_imageset [''a_002.img'', ''b.dat'', ''a_001.img'', ''a_002.img''] =
        Inr matched \<and> total_values matched = 4)"
proof -
  have e: "group_files_by_imageset [''a_002.img'', ''b.dat'', ''a_001.img'', ''a_002.img''] =
      Inr [(''a_###.img'', [Some 2, Some 1, Some 2]), (''b.dat'', [None])]"
    by code_simp
  from C5_grouping_complete[of "[''a_002.img'', ''b.dat'', ''a_001.img'', ''a_002.img'']"] e
  show ?thesis by auto
qed

subsection \<open>Formatting and the scan over the indices\<close>

lemma emit_emit: "emit a (emit b r) = emit (a @ b) r"
  by (cases r) (simp_all add: emit_def)

lemma emit_Inr: "emit a (Inr b) = Inr (a @ b)"
  by (simp add: emit_def)

lemma py_format_text:
  "CHR ''%'' \<notin> set p \<Longrightarrow>
     py_format_from Text used j (p @ r) = emit p (py_format_from Text used j r)"
proof (induction p)
  case Nil
  show ?case by (cases "py_format_from Text used j r") (simp_all add: emit_def)
next
  case (Cons c p)
  then show ?case by (auto simp add: emit_emit)
qed

lemma py_format_text_end:
  "CHR ''%'' \<notin> set p \<Longrightarrow> py_format_from Text True j p = Inr p"
  using py_format_text[of p True j "[]"] by (simp add: emit_Inr)

lemma not_digit_d: "\<not> is_digit CHR ''d''"
  by (simp add: is_digit_def)

lemma py_format_width:
  "list_all is_digit ds \<Longrightarrow>
     py_format_from (Width w) False j (ds @ CHR ''d'' # r) =
       emit (zfill (foldl (\<lambda>a c. 10 * a + digit_val c) w ds) (str_nat j))
         (py_format_from Text True j r)"
proof (induction ds arbitrary: w)
  case Nil
  show ?case by (simp add: not_digit_d)
next
  case (Cons c ds)
  then show ?case by simp
qed

lemma py_format_template:
  assumes "CHR ''%'' \<notin> set pfx" "CHR ''%'' \<notin> set sfx"
  shows "py_format (pfx @ (''%0'' @ str_nat n @ ''d'') @ sfx) j =
           Inr (pfx @ zfill n (str_nat j) @ sfx)"
proof -
  have "py_format (pfx @ (''%0'' @ str_nat n @ ''d'') @ sfx) j =
        emit pfx (py_format_from Text False j (CHR ''%'' # CHR ''0'' # str_nat n @ CHR ''d'' # sfx))"
    unfolding py_format_def using py_format_text[OF assms(1)] by simp
  also have "py_format_from Text False j (CHR ''%'' # CHR ''0'' # str_nat n @ CHR ''d'' # sfx) =
        py_format_from (Width 0) False j (str_nat n @ CHR ''d'' # sfx)"
    by simp
  also have "\<dots> = emit (zfill (dec (str_nat n)) (str_nat j)) (py_format_from Text True j sfx)"
    unfolding dec_def by (rule py_format_width[OF str_nat_digits])
  also have "\<dots> = Inr (zfill n (str_nat j) @ sfx)"
    by (simp add: dec_str_nat py_format_text_end[OF assms(2)] emit_Inr)
  finally show ?thesis by (simp add: emit_Inr)
qed

lemma scan_indices_eq:
  assumes "\<forall>j \<in> set js. py_format template_str j = Inr (render j)"
  shows "scan_indices directory template_str files acc js =
           Inr (acc @ map (\<lambda>j. os_path_join directory (render j))
                        (filter (\<lambda>j. render j \<in> set files) js))"
  using assms
proof (induction js arbitrary: acc)
  case Nil
  then show ?case by simp
next
  case (Cons j js)
  then show ?case by simp
qed

lemma count_hash:
  assumes "CHR ''#'' \<notin> set pre" "CHR ''#'' \<notin> set exten"
  shows "length (filter hash_char (pre @ replicate n CHR ''#'' @ exten)) = n"
proof -
  have "filter hash_char pre = []" "filter hash_char exten = []"
    using assms by (auto simp: hash_char_def filter_empty_conv)
  moreover have "filter hash_char (replicate n CHR ''#'') = replicate n CHR ''#''"
    by (simp add: hash_char_def)
  ultimately show ?thesis by simp
qed

lemma takeWhile_not_hash:
  assumes "CHR ''#'' \<notin> set pre" "0 < n"
  shows "takeWhile not_hash (pre @ replicate n CHR ''#'' @ r) = pre"
proof -
  obtain m where "n = Suc m" using assms(2) by (cases n) auto
  then have "pre @ replicate n CHR ''#'' @ r = pre @ CHR ''#'' # (replicate m CHR ''#'' @ r)"
    by simp
  moreover have "takeWhile not_hash (pre @ CHR ''#'' # (replicate m CHR ''#'' @ r)) = pre"
    using assms(1) by (induction pre) (auto simp add: not_hash_def)
  ultimately show ?thesis by simp
qed

lemma split_hash:
  assumes "CHR ''#'' \<notin> set pre" "CHR ''#'' \<notin> set exten" "0 < n"
  shows "takeWhile not_hash (pre @ replicate n CHR ''#'' @ exten) = pre"
    and "rev (takeWhile not_hash (rev (pre @ replicate n CHR ''#'' @ exten))) = exten"
proof -
  show "takeWhile not_hash (pre @ replicate n CHR ''#'' @ exten) = pre"
    by (rule takeWhile_not_hash[OF assms(1,3)])
  have "rev (pre @ replicate n CHR ''#'' @ exten) = rev exten @ replicate n CHR ''#'' @ rev pre"
    by simp
  moreover have "takeWhile not_hash (rev exten @ replicate n CHR ''#'' @ rev pre) = rev exten"
    by (rule takeWhile_not_hash) (use assms in simp_all)
  ultimately show "rev (takeWhile not_hash (rev (pre @ replicate n CHR ''#'' @ exten))) = exten"
    by simp
qed

lemma find_matching_images_scan:
  assumes t: "template_regex (snd (os_path_split image_name)) = Inr (Some t, i)"
    and ne: "t \<noteq> []"
    and pc: "CHR ''%'' \<notin> set (takeWhile not_hash t)"
            "CHR ''%'' \<notin> set (rev (takeWhile not_hash (rev t)))"
    and dir: "directory = (if fst (os_path_split image_name) = [] then ''.''
                           else fst (os_path_split image_name))"
    and ls: "listdir directory = Inr files"
    and n: "n = length (filter hash_char t)"
    and pfx: "pfx = takeWhile not_hash t"
    and sfx: "sfx = rev (takeWhile not_hash (rev t))"
  shows "find_matching_images listdir image_name =
           Inr (map (\<lambda>j. os_path_join directory (pfx @ zfill n (str_nat j) @ sfx))
                  (filter (\<lambda>j. pfx @ zfill n (str_nat j) @ sfx \<in> set files) [0..<10 ^ n]))"
proof -
  let ?ts = "pfx @ (''%0'' @ str_nat n @ ''d'') @ sfx"
  have fmt: "\<forall>j \<in> set [0..<10 ^ n]. py_format ?ts j = Inr (pfx @ zfill n (str_nat j) @ sfx)"
    using py_format_template[of pfx sfx n] pc unfolding pfx sfx by blast
  have scan: "scan_indices directory ?ts files [] [0..<10 ^ n] =
           Inr ([] @ map (\<lambda>j. os_path_join directory (pfx @ zfill n (str_nat j) @ sfx))
                  (filter (\<lambda>j. pfx @ zfill n (str_nat j) @ sfx \<in> set files) [0..<10 ^ n]))"
    by (rule scan_indices_eq[OF fmt])
  have "find_matching_images listdir image_name =
          scan_indices directory ?ts files [] [0..<10 ^ n]"
    unfolding find_matching_images_def Let_def t
    using ne ls unfolding dir n pfx sfx by simp
  with scan show ?thesis by simp
qed

subsection \<open>The result as a list of indices\<close>

lemma zfill_inj:
  assumes "0 < n" "j < 10 ^ n" "k < 10 ^ n" "zfill n (str_nat j) = zfill n (str_nat k)"
  shows "j = k"
proof -
  have "j = dec (zfill n (str_nat j))"
    by (rule zfill_str_nat(3)[OF assms(1,2), symmetric])
  also have "\<dots> = dec (zfill n (str_nat k))"
    by (rule arg_cong[OF assms(4)])
  also have "\<dots> = k"
    by (rule zfill_str_nat(3)[OF assms(1,3)])
  finally show ?thesis .
qed

lemma render_eq:
  assumes "0 < n" "j < 10 ^ n" "k < 10 ^ n"
  shows "(pfx @ zfill n (str_nat j) @ sfx = pfx @ zfill n (str_nat k) @ sfx) = (j = k)"
proof
  assume "pfx @ zfill n (str_nat j) @ sfx = pfx @ zfill n (str_nat k) @ sfx"
  then have "zfill n (str_nat j) = zfill n (str_nat k)" by simp
  then show "j = k" by (rule zfill_inj[OF assms])
next
  assume "j = k"
  then show "pfx @ zfill n (str_nat j) @ sfx = pfx @ zfill n (str_nat k) @ sfx" by simp
qed

lemma filter_upt_unique:
  assumes "sorted js" "distinct js" "\<forall>j \<in> set js. j < m"
    and "\<forall>j. j < m \<longrightarrow> P j = (j \<in> set js)"
  shows "filter P [0..<m] = js"
proof (rule sorted_distinct_set_unique)
  show "sorted (filter P [0..<m])" by (rule sorted_wrt_filter) simp
  show "distinct (filter P [0..<m])" by simp
  show "sorted js" "distinct js" by fact+
  show "set (filter P [0..<m]) = set js"
  proof (rule set_eqI)
    fix j
    show "j \<in> set (filter P [0..<m]) \<longleftrightarrow> j \<in> set js"
    proof (cases "j < m")
      case True
      with assms(4) show ?thesis by simp
    next
      case False
      with assms(3) show ?thesis by auto
    qed
  qed
qed

lemma find_matching_images_indices:
  assumes t: "template_regex (snd (os_path_split image_name)) = Inr (Some t, i)"
    and ne: "t \<noteq> []"
    and pc: "CHR ''%'' \<notin> set (takeWhile not_hash t)"
            "CHR ''%'' \<notin> set (rev (takeWhile not_hash (rev t)))"
    and dir: "directory = (if fst (os_path_split image_name) = [] then ''.''
                           else fst (os_path_split image_name))"
    and ls: "listdir directory = Inr files"
    and n: "n = length (filter hash_char t)"
    and pfx: "pfx = takeWhile not_hash t"
    and sfx: "sfx = rev (takeWhile not_hash (rev t))"
    and js: "sorted js" "distinct js" "\<forall>j \<in> set js. j < 10 ^ n"
    and present: "\<forall>j. j < 10 ^ n \<longrightarrow>
                    (pfx @ zfill n (str_nat j) @ sfx \<in> set files) = (j \<in> set js)"
  shows "find_matching_images listdir image_name =
           Inr (map (\<lambda>j. os_path_join directory (pfx @ zfill n (str_nat j) @ sfx)) js)"
proof -
  have "filter (\<lambda>j. pfx @ zfill n (str_nat j) @ sfx \<in> set files) [0..<10 ^ n] = js"
    by (rule filter_upt_unique[OF js present])
  moreover have "find_matching_images listdir image_name =
           Inr (map (\<lambda>j. os_path_join directory (pfx @ zfill n (str_nat j) @ sfx))
                  (filter (\<lambda>j. pfx @ zfill n (str_nat j) @ sfx \<in> set files) [0..<10 ^ n]))"
    using t ne pc dir ls n pfx sfx by (rule find_matching_images_scan)
  ultimately show ?thesis by (simp only:)
qed

subsection \<open>Claims on find_matching_images\<close>

text \<open>
  C9. When \<open>template_regex\<close> finds no template in the base filename of a path,
  \<open>find_matching_images\<close> returns the list holding the path itself, whatever the directory
  listing would have been, also a failing one: the directory is not read.
\<close>

theorem C9_no_pattern_passthrough:
  assumes "template_regex (snd (os_path_split image_name)) = Inr (None, i)"
  shows "find_matching_images listdir image_name = Inr [image_name]"
  using assms by (simp add: find_matching_images_def Let_def)

theorem C9_no_pattern_passthrough_witness:
  "template_regex (snd (os_path_split ''README'')) = Inr (None, 0) \<and>
   find_matching_images no_directory ''README'' = Inr [''README'']"
proof -
  have h: "template_regex (snd (os_path_split ''README'')) = Inr (None, 0)"
    by code_simp
  from C9_no_pattern_passthrough[OF h, of no_directory] h show ?thesis by simp
qed

lemma gap_facts:
  "template_regex (snd (os_path_split ''a_001.img'')) = Inr (Some ''a_###.img'', 1)"
  "fst (os_path_split ''a_001.img'') = []"
  "length (filter hash_char ''a_###.img'') = 3"
  "takeWhile not_hash ''a_###.img'' = ''a_''"
  "rev (takeWhile not_hash (rev ''a_###.img'')) = ''.img''"
  "''a_'' @ zfill 3 (str_nat 1) @ ''.img'' = ''a_001.img''"
  "''a_'' @ zfill 3 (str_nat 2) @ ''.img'' = ''a_002.img''"
  "''a_'' @ zfill 3 (str_nat 4) @ ''.img'' = ''a_004.img''"
  "os_path_join ''.'' ''a_001.img'' = ''./a_001.img''"
  "os_path_join ''.'' ''a_002.img'' = ''./a_002.img''"
  "os_path_join ''.'' ''a_004.img'' = ''./a_004.img''"
  by code_simp+

lemma hash_facts:
  "template_regex (snd (os_path_split ''a#_01.cbf'')) = Inr (Some ''a#_##.cbf'', 1)"
  "infer_parts ''a#_01.cbf'' = Some (''a#_'', ''01'', ''.cbf'')"
  "fst (os_path_split ''a#_01.cbf'') = []"
  "length (filter hash_char ''a#_##.cbf'') = 3"
  "takeWhile not_hash ''a#_##.cbf'' = ''a''"
  "rev (takeWhile not_hash (rev ''a#_##.cbf'')) = ''.cbf''"
  "''a#_'' @ zfill (length ''01'') (str_nat 1) @ ''.cbf'' = ''a#_01.cbf''"
  by code_simp+

lemma find_matching_images_plain:
  assumes p: "infer_parts (snd (os_path_split image_name)) = Some (pre, ds, exten)"
    and nh: "CHR ''#'' \<notin> set (snd (os_path_split image_name))"
    and np: "CHR ''%'' \<notin> set (snd (os_path_split image_name))"
    and dir: "directory = (if fst (os_path_split image_name) = [] then ''.''
                           else fst (os_path_split image_name))"
    and ls: "listdir directory = Inr files"
  shows "find_matching_images listdir image_name =
           Inr (map (\<lambda>j. os_path_join directory (pre @ zfill (length ds) (str_nat j) @ exten))
                  (filter (\<lambda>j. pre @ zfill (length ds) (str_nat j) @ exten \<in> set files)
                     [0..<10 ^ length ds]))"
proof -
  let ?t = "pre @ replicate (length ds) CHR ''#'' @ exten"
  from infer_parts_shape[OF p] obtain dropped where
    s: "ds \<noteq> []" "snd (os_path_split image_name) = dropped @ pre @ ds @ exten" by blast
  have d: "0 < length ds" using s(1) by simp
  have h: "CHR ''#'' \<notin> set pre" "CHR ''#'' \<notin> set exten"
    using nh unfolding s(2) by simp_all
  have c: "CHR ''%'' \<notin> set pre" "CHR ''%'' \<notin> set exten"
    using np unfolding s(2) by simp_all
  have t: "template_regex (snd (os_path_split image_name)) = Inr (Some ?t, int (dec ds))"
    by (rule template_regex_Some[OF p])
  have ne: "?t \<noteq> []" using s(1) by simp
  have n: "length ds = length (filter hash_char ?t)"
    by (rule count_hash[OF h, symmetric])
  have pfx: "pre = takeWhile not_hash ?t"
    by (rule split_hash(1)[OF h d, symmetric])
  have sfx: "exten = rev (takeWhile not_hash (rev ?t))"
    by (rule split_hash(2)[OF h d, symmetric])
  have pc: "CHR ''%'' \<notin> set (takeWhile not_hash ?t)"
           "CHR ''%'' \<notin> set (rev (takeWhile not_hash (rev ?t)))"
    unfolding pfx[symmetric] sfx[symmetric] by (rule c)+
  from t ne pc dir ls n pfx sfx show ?thesis
    by (rule find_matching_images_scan)
qed

lemma materialize_gap:
  assumes ls: "listdir ''.'' = Inr files"
    and files: "set files = {''a_001.img'', ''a_002.img'', ''a_004.img''}"
  shows "find_matching_images listdir ''a_001.img'' =
           Inr [''./a_001.img'', ''./a_002.img'', ''./a_004.img'']"
proof -
  have pc: "CHR ''%'' \<notin> set (takeWhile not_hash ''a_###.img'')"
           "CHR ''%'' \<notin> set (rev (takeWhile not_hash (rev ''a_###.img'')))"
    unfolding gap_facts(4,5) by simp_all
  have ne: "''a_###.img'' \<noteq> []" by simp
  have dir: "''.'' = (if fst (os_path_split ''a_001.img'') = [] then ''.''
                           else fst (os_path_split ''a_001.img''))"
    unfolding gap_facts(2) by simp
  have js: "sorted [1, 2, 4::nat]" "distinct [1, 2, 4::nat]"
           "\<forall>j \<in> set [1, 2, 4::nat]. j < 10 ^ 3"
    by simp_all
  have present: "\<forall>j. j < 10 ^ 3 \<longrightarrow>
      (''a_'' @ zfill 3 (str_nat j) @ ''.img'' \<in> set files) = (j \<in> set [1, 2, 4::nat])"
  proof (intro allI impI)
    fix j :: nat assume j: "j < 10 ^ 3"
    have e: "\<And>k. k < 10 ^ 3 \<Longrightarrow>
        (''a_'' @ zfill 3 (str_nat j) @ ''.img'' = ''a_'' @ zfill 3 (str_nat k) @ ''.img'') = (j = k)"
      by (rule render_eq[OF _ j]) simp_all
    have "(''a_'' @ zfill 3 (str_nat j) @ ''.img'' = ''a_001.img'') = (j = 1)"
      using e[of 1] unfolding gap_facts(6) by simp
    moreover have "(''a_'' @ zfill 3 (str_nat j) @ ''.img'' = ''a_002.img'') = (j = 2)"
      using e[of 2] unfolding gap_facts(7) by simp
    moreover have "(''a_'' @ zfill 3 (str_nat j) @ ''.img'' = ''a_004.img'') = (j = 4)"
      using e[of 4] unfolding gap_facts(8) by simp
    ultimately show "(''a_'' @ zfill 3 (str_nat j) @ ''.img'' \<in> set files) = (j \<in> set [1, 2, 4::nat])"
      unfolding files by (simp only: insert_iff empty_iff list.set simp_thms)
  qed
  have "find_matching_images listdir ''a_001.img'' =
           Inr (map (\<lambda>j. os_path_join ''.'' (''a_'' @ zfill 3 (str_nat j) @ ''.img'')) [1, 2, 4])"
    using gap_facts(1) ne pc dir ls gap_facts(3)[symmetric]
          gap_facts(4)[symmetric] gap_facts(5)[symmetric] js present
    by (rule find_matching_images_indices)
  then show ?thesis
    by (simp only: list.map gap_facts(6,7,8,9,10,11))
qed

lemma materialize_hash:
  "find_matching_images hash_directory ''a#_01.cbf'' = Inr []"
proof -
  have pc: "CHR ''%'' \<notin> set (takeWhile not_hash ''a#_##.cbf'')"
           "CHR ''%'' \<notin> set (rev (takeWhile not_hash (rev ''a#_##.cbf'')))"
    unfolding hash_facts(5,6) by simp_all
  have ne: "''a#_##.cbf'' \<noteq> []" by simp
  have dir: "''.'' = (if fst (os_path_split ''a#_01.cbf'') = [] then ''.''
                           else fst (os_path_split ''a#_01.cbf''))"
    unfolding hash_facts(3) by simp
  have ls: "hash_directory ''.'' = Inr [''a#_01.cbf'']"
    by (simp add: hash_directory_def)
  have js: "sorted ([]::nat list)" "distinct ([]::nat list)"
           "\<forall>j \<in> set ([]::nat list). j < 10 ^ 3"
    by simp_all
  have present: "\<forall>j. j < 10 ^ 3 \<longrightarrow>
      (''a'' @ zfill 3 (str_nat j) @ ''.cbf'' \<in> set [''a#_01.cbf'']) = (j \<in> set ([]::nat list))"
  proof (intro allI impI)
    fix j :: nat assume j: "j < 10 ^ 3"
    have "length (zfill 3 (str_nat j)) = 3"
      by (rule zfill_str_nat(1)[OF _ j]) simp
    then have len: "length (''a'' @ zfill 3 (str_nat j) @ ''.cbf'') = 8" by simp
    have "''a'' @ zfill 3 (str_nat j) @ ''.cbf'' \<noteq> ''a#_01.cbf''"
    proof
      assume "''a'' @ zfill 3 (str_nat j) @ ''.cbf'' = ''a#_01.cbf''"
      then have "length (''a'' @ zfill 3 (str_nat j) @ ''.cbf'') = length ''a#_01.cbf''"
        by (rule arg_cong)
      with len show False by simp
    qed
    then show "(''a'' @ zfill 3 (str_nat j) @ ''.cbf'' \<in> set [''a#_01.cbf'']) =
                 (j \<in> set ([]::nat list))"
      by simp
  qed
  have "find_matching_images hash_directory ''a#_01.cbf'' =
           Inr (map (\<lambda>j. os_path_join ''.'' (''a'' @ zfill 3 (str_nat j) @ ''.cbf'')) [])"
    using hash_facts(1) ne pc dir ls hash_facts(4)[symmetric]
          hash_facts(5)[symmetric] hash_facts(6)[symmetric] js present
    by (rule find_matching_images_indices)
  then show ?thesis by simp
qed

text \<open>
  C7, as amended. When the listing of the current directory holds exactly \<^verbatim>\<open>a_001.img\<close>,
  \<^verbatim>\<open>a_002.img\<close> and \<^verbatim>\<open>a_004.img\<close>, in any order, \<open>find_matching_images\<close> of
  \<^verbatim>\<open>a_001.img\<close> returns the three names in the order of their indices, the missing index 3
  left out, each joined to the directory \<^verbatim>\<open>.\<close> that stands for the empty directory part:
  \<^verbatim>\<open>./a_001.img\<close>, \<^verbatim>\<open>./a_002.img\<close>, \<^verbatim>\<open>./a_004.img\<close>.
\<close>

theorem C7_gap_skipped:
  assumes "listdir ''.'' = Inr files"
    and "set files = {''a_001.img'', ''a_002.img'', ''a_004.img''}"
  shows "find_matching_images listdir ''a_001.img'' =
           Inr [''./a_001.img'', ''./a_002.img'', ''./a_004.img'']"
  using assms by (rule materialize_gap)

theorem C7_gap_skipped_witness:
  "gap_directory ''.'' = Inr [''a_004.img'', ''a_001.img'', ''a_002.img''] \<and>
   set [''a_004.img'', ''a_001.img'', ''a_002.img''] = {''a_001.img'', ''a_002.img'', ''a_004.img''} \<and>
   find_matching_images gap_directory ''a_001.img'' =
     Inr [''./a_001.img'', ''./a_002.img'', ''./a_004.img'']"
proof -
  have h1: "gap_directory ''.'' = Inr [''a_004.img'', ''a_001.img'', ''a_002.img'']"
    by (simp add: gap_directory_def)
  have h2: "set [''a_004.img'', ''a_001.img'', ''a_002.img''] =
              {''a_001.img'', ''a_002.img'', ''a_004.img''}"
    by auto
  from C7_gap_skipped[where listdir=gap_directory, OF h1 h2] h1 h2 show ?thesis by blast
qed

text \<open>
  C7, as stated: the result is not the list of the bare names.
\<close>

theorem C7_bare_names_counterexample:
  "find_matching_images gap_directory ''a_001.img'' \<noteq>
     Inr [''a_001.img'', ''a_002.img'', ''a_004.img'']"
proof -
  have h1: "gap_directory ''.'' = Inr [''a_004.img'', ''a_001.img'', ''a_002.img'']"
    by (simp add: gap_directory_def)
  have h2: "set [''a_004.img'', ''a_001.img'', ''a_002.img''] =
              {''a_001.img'', ''a_002.img'', ''a_004.img''}"
    by auto
  show ?thesis unfolding materialize_gap[where listdir=gap_directory, OF h1 h2] by simp
qed

text \<open>
  C6. For \<^verbatim>\<open>a#_01.cbf\<close> the inferred template has prefix \<^verbatim>\<open>a#_\<close>, two digits and suffix
  \<^verbatim>\<open>.cbf\<close>, and index 1 renders to the name itself. \<open>find_matching_images\<close> reads the
  parts back from the template string \<^verbatim>\<open>a#_##.cbf\<close> by counting and splitting at \<^verbatim>\<open>#\<close>, gets
  three digits, prefix \<^verbatim>\<open>a\<close> and suffix \<^verbatim>\<open>.cbf\<close>, and so does not find the name in a
  directory that holds it.
\<close>

theorem C6_hash_in_name:
  "infer_parts ''a#_01.cbf'' = Some (''a#_'', ''01'', ''.cbf'') \<and>
   ''a#_'' @ zfill (length ''01'') (str_nat 1) @ ''.cbf'' = ''a#_01.cbf'' \<and>
   hash_directory ''.'' = Inr [''a#_01.cbf''] \<and>
   find_matching_images hash_directory ''a#_01.cbf'' = Inr []"
  using hash_facts(2,7) materialize_hash by (simp add: hash_directory_def)

end
